theory Spec2Isabelle
  imports Main "HOL-Library.Multiset" "HOL-Library.Word"
begin

section \<open>Strings and numbers of the host language\<close>

text \<open>
  \<open>String.prototype.includes\<close>: the argument occurs as a contiguous piece of the
  receiver.
\<close>

fun startsWith :: "string \<Rightarrow> string \<Rightarrow> bool" where
  "startsWith s [] = True"
| "startsWith [] (c # cs) = False"
| "startsWith (x # xs) (c # cs) = (x = c \<and> startsWith xs cs)"

fun str_includes :: "string \<Rightarrow> string \<Rightarrow> bool" where
  "str_includes [] t = (t = [])"
| "str_includes (x # xs) t = (startsWith (x # xs) t \<or> str_includes xs t)"

text \<open>The decimal digits of a natural number, without leading zeros.\<close>

definition digit_char :: "nat \<Rightarrow> char" where
  "digit_char d = ''0123456789'' ! d"

function decimal :: "nat \<Rightarrow> string" where
  "decimal n = (if n < 10 then [digit_char n] else decimal (n div 10) @ [digit_char (n mod 10)])"
  by pat_completeness auto
termination
  by (relation "measure id") auto

declare decimal.simps [simp del]

text \<open>
  Read the other way, independently of \<open>decimal\<close>: the number that a string of decimal
  digits denotes, and \<open>None\<close> for the empty string and for a string with another
  character in it. The digits are the characters with the codes 48 to 57.
\<close>

definition digit_value :: "char \<Rightarrow> nat option" where
  "digit_value c =
     (let code = (of_char c :: nat)
      in if 48 \<le> code \<and> code \<le> 57 then Some (code - 48) else None)"

fun read_digits :: "nat \<Rightarrow> string \<Rightarrow> nat option" where
  "read_digits acc [] = Some acc"
| "read_digits acc (c # cs) =
     (case digit_value c of None \<Rightarrow> None | Some d \<Rightarrow> read_digits (10 * acc + d) cs)"

definition decimal_value :: "string \<Rightarrow> nat option" where
  "decimal_value s = (if s = [] then None else read_digits 0 s)"

text \<open>
  A delay that \<open>setTimeout\<close> honours is a whole number of milliseconds below \<open>2^31\<close>;
  that is the type \<open>31 word\<close>. A template literal renders such a number by its decimal
  digits. Fractions of a millisecond and larger numbers have no value in this type.
\<close>

definition show_ms :: "31 word \<Rightarrow> string" where
  "show_ms ms = decimal (unat ms)"

section \<open>Timeout guard (withTimeout.js)\<close>

text \<open>
  What a promise is rejected with, or a function throws: a value whose \<open>message\<close>
  is a string (an \<open>Error\<close> object), a value without a \<open>message\<close> (or with \<open>null\<close> or
  \<open>undefined\<close> for it), or a value whose \<open>message\<close> is something else that has no
  method \<open>includes\<close> (a number, say).
\<close>

datatype rejection = ErrorObj string | NoMessage | OtherMessage

text \<open>The message, when it is a string.\<close>

fun message :: "rejection \<Rightarrow> string option" where
  "message (ErrorObj m) = Some m"
| "message NoMessage = None"
| "message OtherMessage = None"

text \<open>
  What leaves a function as an exception: the \<open>TypeError\<close> that the language raises
  itself, or a value that the called code threw.
\<close>

datatype js_error = TypeError | Thrown rejection

datatype 'a settled = Fulfilled 'a | Rejected rejection

text \<open>
  \<open>Promise.race([promise, timeoutPromise])\<close> settles with whichever of its two
  inputs settles first: the guarded operation, or the timer started by \<open>setTimeout\<close>.
  The value of type \<open>race\<close> is that order of events.
\<close>

datatype 'a race = OperationFirst "'a settled" | TimerFirst

text \<open>
  The error of the timer. \<open>${ms}\<close> in the template literal is the conversion of the
  deadline to a string by the language, whatever kind of number the deadline is; it
  is the parameter \<open>toString\<close>.
\<close>

definition timeoutError :: "('n \<Rightarrow> string) \<Rightarrow> 'n \<Rightarrow> rejection" where
  "timeoutError toString ms = ErrorObj (''Timeout: operation exceeded '' @ toString ms @ ''ms'')"

text \<open>
  \<open>withTimeout(promise, ms)\<close>. The \<open>finally\<close> handler only clears the timer and
  hands the outcome of the race on.
\<close>

definition withTimeout :: "('n \<Rightarrow> string) \<Rightarrow> 'a race \<Rightarrow> 'n \<Rightarrow> 'a settled" where
  "withTimeout toString promise ms =
     (case promise of
        OperationFirst outcome \<Rightarrow> outcome
      | TimerFirst \<Rightarrow> Rejected (timeoutError toString ms))"

section \<open>Collector orchestrator (MetricsRepository.js)\<close>

datatype metric_key = Cpu | Memory | Disk | Processes | Network | SystemInfo

text \<open>\<open>Object.keys(collectors)\<close>: the keys in the order the object literal lists them.\<close>

definition keys :: "metric_key list" where
  "keys = [Cpu, Memory, Disk, Processes, Network, SystemInfo]"

fun key_name :: "metric_key \<Rightarrow> string" where
  "key_name Cpu = ''cpu''"
| "key_name Memory = ''memory''"
| "key_name Disk = ''disk''"
| "key_name Processes = ''processes''"
| "key_name Network = ''network''"
| "key_name SystemInfo = ''systemInfo''"

datatype metric_status = Ok | Degraded | Unavailable

text \<open>
  One entry of the returned object. A value of type \<open>'d option\<close> is what a collector
  reports: \<open>None\<close> stands for \<open>null\<close> and \<open>undefined\<close>, which the code treats alike.
\<close>

record 'd metric_result =
  status :: metric_status
  data :: "'d option"
  error :: "string option"

type_synonym 'd metrics = "metric_key \<rightharpoonup> 'd metric_result"

record 'd MetricsRepository =
  lastKnown :: "metric_key \<Rightarrow> 'd option"

definition new_MetricsRepository :: "'d MetricsRepository" where
  "new_MetricsRepository = \<lparr>lastKnown = (\<lambda>key. None)\<rparr>"

text \<open>
  What the call \<open>collectors[key]()\<close> of one cycle does: it throws before it returns
  (an adapter without the method, a method that is not \<open>async\<close>), or it returns a
  promise, which then runs against the timer.
\<close>

datatype 'a call = ThrowsSync rejection | Returns "'a race"

text \<open>
  \<open>keys.map((key) => withTimeout(collectors[key](), 1000))\<close> and the wait for
  \<open>Promise.allSettled\<close>. The calls are made in order and none of them is inside a
  \<open>try\<close>: the first one that throws ends the \<open>map\<close>, and the exception leaves
  \<open>getSystemMetrics\<close>.
\<close>

fun call_all :: "'a call list \<Rightarrow> js_error + 'a settled list" where
  "call_all [] = Inr []"
| "call_all (ThrowsSync e # rest) = Inl (Thrown e)"
| "call_all (Returns promise # rest) =
     (case call_all rest of
        Inl e \<Rightarrow> Inl e
      | Inr results \<Rightarrow> Inr (withTimeout show_ms promise 1000 # results))"

text \<open>
  \<open>result.reason?.message?.includes('Timeout')\<close>: a missing message gives
  \<open>undefined\<close>, which is falsy; a message that is not a string and has no method
  \<open>includes\<close> makes the call throw a \<open>TypeError\<close>.
\<close>

fun isTimeout :: "rejection \<Rightarrow> js_error + bool" where
  "isTimeout (ErrorObj m) = Inr (str_includes m ''Timeout'')"
| "isTimeout NoMessage = Inr False"
| "isTimeout OtherMessage = Inl TypeError"

text \<open>
  \<open>result.reason?.message || 'Unknown error'\<close>: the empty string is falsy as well.
  (For a message that is not a string this line is not reached.)
\<close>

definition errorText :: "rejection \<Rightarrow> string" where
  "errorText reason =
     (case message reason of
        None \<Rightarrow> ''Unknown error''
      | Some m \<Rightarrow> if m = [] then ''Unknown error'' else m)"

text \<open>
  The body of the loop over the settled results, for one key. An exception leaves the
  loop with the store as the keys before have left it.
\<close>

definition settle_metric ::
  "metric_key \<Rightarrow> 'd option settled \<Rightarrow> 'd MetricsRepository \<times> 'd metrics \<Rightarrow>
   js_error + 'd MetricsRepository \<times> 'd metrics" where
  "settle_metric key result st =
     (case st of (repo, metrics) \<Rightarrow>
        (case result of
           Fulfilled (Some v) \<Rightarrow>
             Inr (repo\<lparr>lastKnown := (lastKnown repo)(key := Some v)\<rparr>,
                  metrics(key \<mapsto> \<lparr>status = Ok, data = Some v, error = None\<rparr>))
         | Fulfilled None \<Rightarrow>
             Inr (repo,
                  metrics(key \<mapsto> \<lparr>status = Unavailable, data = lastKnown repo key,
                                    error = Some (key_name key @ '' returned null'')\<rparr>))
         | Rejected reason \<Rightarrow>
             (case isTimeout reason of
                Inl e \<Rightarrow> Inl e
              | Inr timeout \<Rightarrow>
                  Inr (repo,
                       metrics(key \<mapsto> \<lparr>status = (if timeout then Degraded else Unavailable),
                                         data = lastKnown repo key,
                                         error = Some (errorText reason)\<rparr>)))))"

fun collect_loop ::
  "(metric_key \<times> 'd option settled) list \<Rightarrow> 'd MetricsRepository \<times> 'd metrics \<Rightarrow>
   'd MetricsRepository \<times> (js_error + 'd metrics)" where
  "collect_loop [] st = (fst st, Inr (snd st))"
| "collect_loop ((key, result) # rest) st =
     (case settle_metric key result st of
        Inl e \<Rightarrow> (fst st, Inl e)
      | Inr st' \<Rightarrow> collect_loop rest st')"

text \<open>
  \<open>getSystemMetrics\<close>. The argument \<open>collectors\<close> gives, for each key, what the
  provider call of this cycle does. The result is the store after the call, and the
  returned object or the exception with which the call ends.
\<close>

definition getSystemMetrics ::
  "(metric_key \<Rightarrow> 'd option call) \<Rightarrow> 'd MetricsRepository \<Rightarrow>
   'd MetricsRepository \<times> (js_error + 'd metrics)" where
  "getSystemMetrics collectors repo =
     (case call_all (map collectors keys) of
        Inl e \<Rightarrow> (repo, Inl e)
      | Inr results \<Rightarrow> collect_loop (zip keys results) (repo, Map.empty))"


text \<open>
  Every call of the cycle returns a promise, and no rejection that wins against the
  timer has a message that is not a string.
\<close>

fun orderly_call :: "'a call \<Rightarrow> bool" where
  "orderly_call (ThrowsSync e) = False"
| "orderly_call (Returns (OperationFirst (Rejected OtherMessage))) = False"
| "orderly_call (Returns promise) = True"

definition orderly :: "(metric_key \<Rightarrow> 'd option call) \<Rightarrow> bool" where
  "orderly collectors = list_all (\<lambda>key. orderly_call (collectors key)) keys"




section \<open>History and status service (SystemMonitorService.js)\<close>

datatype global_status = GlobalOk | GlobalDegraded | GlobalCritical

definition computeGlobalStatus :: "metric_status list \<Rightarrow> global_status" where
  "computeGlobalStatus statuses =
     (let allOk = list_all (\<lambda>s. s = Ok) statuses in
      if allOk then GlobalOk
      else
        let allUnavailable = list_all (\<lambda>s. s = Unavailable) statuses in
        if allUnavailable then GlobalCritical else GlobalDegraded)"

definition HISTORY_SIZE :: nat where
  "HISTORY_SIZE = 60"

record 'n sample =
  cpu :: "'n option"
  memory :: "'n option"
  timestamp :: int

text \<open>
  The service owns its repository, the array of \<open>HISTORY_SIZE\<close> slots (\<open>None\<close> is
  the \<open>null\<close> the constructor fills in) and the write cursor.
\<close>

record ('d, 'n) SystemMonitorService =
  repository :: "'d MetricsRepository"
  history :: "'n sample option list"
  historyIndex :: nat

definition new_SystemMonitorService :: "'d MetricsRepository \<Rightarrow> ('d, 'n) SystemMonitorService" where
  "new_SystemMonitorService repo =
     \<lparr>repository = repo, history = replicate HISTORY_SIZE None, historyIndex = 0\<rparr>"

text \<open>\<open>filter(Boolean)\<close> on the slots: an object is truthy, \<open>null\<close> is not.\<close>

fun filter_Boolean :: "'a option list \<Rightarrow> 'a list" where
  "filter_Boolean [] = []"
| "filter_Boolean (None # slots) = filter_Boolean slots"
| "filter_Boolean (Some x # slots) = x # filter_Boolean slots"

text \<open>
  \<open>getHistory\<close>. \<open>Array.prototype.sort\<close> is stable, and the comparator orders by
  the timestamp alone, so the result is the stable sort by that key.
\<close>

definition getHistory :: "('d, 'n) SystemMonitorService \<Rightarrow> 'n sample list" where
  "getHistory svc = sort_key timestamp (filter_Boolean (history svc))"

text \<open>
  \<open>metrics.k.status === 'ok' ? metrics.k.data.p : null\<close> for a key \<open>k\<close> and a property
  \<open>p\<close>; reading a property of \<open>undefined\<close> or \<open>null\<close> throws. The property read
  itself is a parameter, since the shape of the data is the provider's.
\<close>

definition ok_property ::
  "('d \<Rightarrow> 'n option) \<Rightarrow> 'd metric_result option \<Rightarrow> js_error + 'n option" where
  "ok_property prop entry =
     (case entry of
        None \<Rightarrow> Inl TypeError
      | Some r \<Rightarrow>
          if status r = Ok
          then (case data r of None \<Rightarrow> Inl TypeError | Some d \<Rightarrow> Inr (prop d))
          else Inr None)"

text \<open>The fields of the object that \<open>getCurrentMetrics\<close> returns.\<close>

datatype ('d, 'n) field =
  Number int
| Status global_status
| Result "'d metric_result"
| Samples "'n sample list"

type_synonym ('d, 'n) snapshot = "(string \<times> ('d, 'n) field) list"

text \<open>
  \<open>getCurrentMetrics\<close>, with \<open>Date.now()\<close> as the argument \<open>now\<close>. An exception of
  the awaited \<open>getSystemMetrics\<close> leaves the call before anything else is done. The
  state is returned also when the call throws, because the writes before the throw
  stay.
\<close>

definition getCurrentMetrics ::
  "('d \<Rightarrow> 'n option) \<Rightarrow> ('d \<Rightarrow> 'n option) \<Rightarrow> (metric_key \<Rightarrow> 'd option call) \<Rightarrow> int \<Rightarrow>
   ('d, 'n) SystemMonitorService \<Rightarrow>
   ('d, 'n) SystemMonitorService \<times> (js_error + ('d, 'n) snapshot)" where
  "getCurrentMetrics usage percentage collectors now svc =
     (case getSystemMetrics collectors (repository svc) of (repo, outcome) \<Rightarrow>
        let svc1 = svc\<lparr>repository := repo\<rparr> in
        (case outcome of
           Inl e \<Rightarrow> (svc1, Inl e)
         | Inr metrics \<Rightarrow>
        (case ok_property usage (metrics Cpu) of
           Inl e \<Rightarrow> (svc1, Inl e)
         | Inr cpuUsage \<Rightarrow>
        (case ok_property percentage (metrics Memory) of
           Inl e \<Rightarrow> (svc1, Inl e)
         | Inr memPercentage \<Rightarrow>
        let svc2 = svc1\<lparr>
              history := (history svc1)
                [historyIndex svc1 mod HISTORY_SIZE :=
                   Some \<lparr>cpu = cpuUsage, memory = memPercentage, timestamp = now\<rparr>],
              historyIndex := historyIndex svc1 + 1\<rparr> in
        (case (metrics Cpu, metrics Memory, metrics Disk, metrics Processes) of
           (Some c, Some m, Some d, Some p) \<Rightarrow>
             let statuses = map status [c, m, d, p];
                 globalStatus = computeGlobalStatus statuses
             in (svc2,
                 Inr [(''timestamp'', Number now),
                      (''status'', Status globalStatus),
                      (''cpu'', Result c),
                      (''memory'', Result m),
                      (''disk'', Result d),
                      (''processes'', Result p),
                      (''history'', Samples (getHistory svc2))])
         | _ \<Rightarrow> (svc2, Inl TypeError))))))"

text \<open>Successive calls, each with its collectors' behaviour and its clock reading.\<close>

fun run_service ::
  "('d \<Rightarrow> 'n option) \<Rightarrow> ('d \<Rightarrow> 'n option) \<Rightarrow> ((metric_key \<Rightarrow> 'd option call) \<times> int) list \<Rightarrow>
   ('d, 'n) SystemMonitorService \<Rightarrow> ('d, 'n) SystemMonitorService" where
  "run_service usage percentage [] svc = svc"
| "run_service usage percentage ((collectors, now) # calls) svc =
     run_service usage percentage calls
       (fst (getCurrentMetrics usage percentage collectors now svc))"

text \<open>
  The sample that each of a sequence of calls writes into the array, in call order.
  A call that throws before the write leaves the cursor where it was and writes
  nothing.
\<close>

fun written_samples ::
  "('d \<Rightarrow> 'n option) \<Rightarrow> ('d \<Rightarrow> 'n option) \<Rightarrow> ((metric_key \<Rightarrow> 'd option call) \<times> int) list \<Rightarrow>
   ('d, 'n) SystemMonitorService \<Rightarrow> 'n sample list" where
  "written_samples usage percentage [] svc = []"
| "written_samples usage percentage ((collectors, now) # calls) svc =
     (let svc' = fst (getCurrentMetrics usage percentage collectors now svc)
      in (if historyIndex svc' = historyIndex svc then []
          else (case history svc' ! (historyIndex svc mod HISTORY_SIZE) of
                  None \<Rightarrow> []
                | Some s \<Rightarrow> [s]))
         @ written_samples usage percentage calls svc')"

text \<open>
  How the array lies once the samples \<open>xs\<close> have been written to a new one, oldest
  first: while it fills up, the samples and then the empty slots; afterwards the last
  \<open>HISTORY_SIZE\<close> samples, the newest ones wrapped around to the front.
\<close>

definition ring_layout :: "'a list \<Rightarrow> 'a option list" where
  "ring_layout xs =
     (if length xs < HISTORY_SIZE
      then map Some xs @ replicate (HISTORY_SIZE - length xs) None
      else
        let ys = drop (length xs - HISTORY_SIZE) xs;
            k = length xs mod HISTORY_SIZE
        in map Some (drop (HISTORY_SIZE - k) ys @ take (HISTORY_SIZE - k) ys))"

section \<open>Broadcast manager (sseManager.js)\<close>

text \<open>
  The manager's two fields, and what its calls leave in the runtime: the intervals
  that \<open>setInterval\<close> created and \<open>clearInterval\<close> has not cleared, the responses
  that carry the \<open>close\<close> listener of \<open>addClient\<close>, and every call of \<open>write\<close>
  with its frame. The \<open>Set\<close> of clients is the list of its members in insertion
  order, which is the order a \<open>for ... of\<close> loop visits them in.
\<close>

record 'c SSEManager =
  clients :: "'c list"
  heartbeatInterval :: "nat option"
  intervals :: "nat list"
  nextInterval :: nat
  closeListeners :: "'c list"
  writeCalls :: "('c \<times> string) list"

definition new_SSEManager :: "'c SSEManager" where
  "new_SSEManager =
     \<lparr>clients = [], heartbeatInterval = None, intervals = [], nextInterval = 1,
      closeListeners = [], writeCalls = []\<rparr>"

definition set_add :: "'c \<Rightarrow> 'c list \<Rightarrow> 'c list" where
  "set_add c cs = (if c \<in> set cs then cs else cs @ [c])"

definition set_delete :: "'c \<Rightarrow> 'c list \<Rightarrow> 'c list" where
  "set_delete c cs = removeAll c cs"

definition startHeartbeat :: "'c SSEManager \<Rightarrow> 'c SSEManager" where
  "startHeartbeat m =
     m\<lparr>heartbeatInterval := Some (nextInterval m),
       intervals := intervals m @ [nextInterval m],
       nextInterval := nextInterval m + 1\<rparr>"

definition stopHeartbeat :: "'c SSEManager \<Rightarrow> 'c SSEManager" where
  "stopHeartbeat m =
     (case heartbeatInterval m of
        Some t \<Rightarrow> m\<lparr>intervals := removeAll t (intervals m), heartbeatInterval := None\<rparr>
      | None \<Rightarrow> m)"

definition addClient :: "'c \<Rightarrow> 'c SSEManager \<Rightarrow> 'c SSEManager" where
  "addClient res m =
     (let m1 = m\<lparr>clients := set_add res (clients m)\<rparr>;
          m2 = m1\<lparr>closeListeners := closeListeners m1 @ [res]\<rparr>
      in if length (clients m2) = 1 then startHeartbeat m2 else m2)"

text \<open>The listener that \<open>addClient\<close> puts on the response's \<open>close\<close> event.\<close>

definition on_close :: "'c \<Rightarrow> 'c SSEManager \<Rightarrow> 'c SSEManager" where
  "on_close res m =
     (let m1 = m\<lparr>clients := set_delete res (clients m)\<rparr>
      in if length (clients m1) = 0 then stopHeartbeat m1 else m1)"

text \<open>
  The loop over the clients, in \<open>broadcast\<close> and in the heartbeat callback alike:
  \<open>write\<close> is called on each one, and a client whose \<open>write\<close> throws (\<open>throws\<close>
  says which do, at this call) is deleted in the \<open>catch\<close>. Deleting the member
  being visited does not disturb the iteration of a \<open>Set\<close>.
\<close>

fun write_loop :: "string \<Rightarrow> ('c \<Rightarrow> bool) \<Rightarrow> 'c list \<Rightarrow> 'c SSEManager \<Rightarrow> 'c SSEManager" where
  "write_loop payload throws [] m = m"
| "write_loop payload throws (client # rest) m =
     (let m1 = m\<lparr>writeCalls := writeCalls m @ [(client, payload)]\<rparr>
      in write_loop payload throws rest
           (if throws client then m1\<lparr>clients := set_delete client (clients m1)\<rparr> else m1))"

text \<open>
  \<open>broadcast\<close>. \<open>JSON.stringify\<close> is the parameter \<open>stringify\<close>; it sits outside
  the \<open>try\<close>, so an exception of its own leaves the call.
\<close>

definition broadcast ::
  "('s \<Rightarrow> js_error + string) \<Rightarrow> ('c \<Rightarrow> bool) \<Rightarrow> 's \<Rightarrow> 'c SSEManager \<Rightarrow> js_error + 'c SSEManager" where
  "broadcast stringify throws snapshot m =
     (case stringify snapshot of
        Inl e \<Rightarrow> Inl e
      | Inr json \<Rightarrow>
          let payload = ''data: '' @ json @ [CHR 0x0A, CHR 0x0A]
          in Inr (write_loop payload throws (clients m) m))"

definition heartbeat_tick :: "('c \<Rightarrow> bool) \<Rightarrow> 'c SSEManager \<Rightarrow> 'c SSEManager" where
  "heartbeat_tick throws m =
     write_loop ('':heartbeat'' @ [CHR 0x0A, CHR 0x0A]) throws (clients m) m"

text \<open>
  What happens to a manager: a registration, the \<open>close\<close> event of a response that
  carries the listener, a broadcast of a frame, and a tick of a running keep-alive
  timer; the last two with the connections whose \<open>write\<close> throws at that moment.
\<close>

datatype 'c manager_event =
  Registers 'c
| Closes 'c
| Broadcasts string "'c \<Rightarrow> bool"
| Ticks "'c \<Rightarrow> bool"

fun manager_step :: "'c SSEManager \<Rightarrow> 'c manager_event \<Rightarrow> 'c SSEManager" where
  "manager_step m (Registers res) = addClient res m"
| "manager_step m (Closes res) = (if res \<in> set (closeListeners m) then on_close res m else m)"
| "manager_step m (Broadcasts payload throws) = write_loop payload throws (clients m) m"
| "manager_step m (Ticks throws) = (if intervals m = [] then m else heartbeat_tick throws m)"

section \<open>Reconnecting subscriber (sseClient.js)\<close>

definition MAX_RETRIES :: nat where
  "MAX_RETRIES = 10"

definition MAX_BACKOFF :: nat where
  "MAX_BACKOFF = 30000"

definition INITIAL_BACKOFF :: nat where
  "INITIAL_BACKOFF = 1000"

datatype conn_status = Connected | Reconnecting | Disconnected

text \<open>
  The client's fields and what its calls leave in the browser. An \<open>EventSource\<close> and
  a timer are known by a handle. \<open>openSources\<close> holds the event sources that were
  constructed and not closed, \<open>pendingTimers\<close> the timers that were set and have
  neither fired nor been cleared, each with its delay; \<open>scheduled\<close> lists the delay
  of every \<open>setTimeout\<close> call and \<open>statusCalls\<close> the argument of every call of the
  status callback, both in order. \<open>onData\<close> and \<open>onStatus\<close> say whether the
  callback is set.
\<close>

record 'a SSEClient =
  eventSource :: "nat option"
  retryCount :: nat
  lastData :: "'a option"
  onData :: bool
  onStatus :: bool
  backoff :: nat
  reconnectTimeout :: "nat option"
  openSources :: "nat list"
  pendingTimers :: "(nat \<times> nat) list"
  nextHandle :: nat
  scheduled :: "nat list"
  statusCalls :: "conn_status list"
  dataCalls :: "'a list"

definition new_SSEClient :: "'a SSEClient" where
  "new_SSEClient =
     \<lparr>eventSource = None, retryCount = 0, lastData = None, onData = False, onStatus = False,
      backoff = INITIAL_BACKOFF, reconnectTimeout = None, openSources = [], pendingTimers = [],
      nextHandle = 1, scheduled = [], statusCalls = [], dataCalls = []\<rparr>"

text \<open>\<open>this._onStatus?.(s)\<close>\<close>

definition notify :: "conn_status \<Rightarrow> 'a SSEClient \<Rightarrow> 'a SSEClient" where
  "notify s c = (if onStatus c then c\<lparr>statusCalls := statusCalls c @ [s]\<rparr> else c)"

definition close :: "'a SSEClient \<Rightarrow> 'a SSEClient" where
  "close c =
     (let c1 = (case eventSource c of
                  Some h \<Rightarrow> c\<lparr>openSources := removeAll h (openSources c), eventSource := None\<rparr>
                | None \<Rightarrow> c)
      in case reconnectTimeout c1 of
           Some t \<Rightarrow> c1\<lparr>pendingTimers := filter (\<lambda>p. fst p \<noteq> t) (pendingTimers c1),
                        reconnectTimeout := None\<rparr>
         | None \<Rightarrow> c1)"

text \<open>\<open>_open\<close>, up to the construction of the event source; its three handlers follow.\<close>

definition open_source :: "'a SSEClient \<Rightarrow> 'a SSEClient" where
  "open_source c =
     (let c1 = close c;
          c2 = notify Reconnecting c1
      in c2\<lparr>eventSource := Some (nextHandle c2),
            openSources := openSources c2 @ [nextHandle c2],
            nextHandle := nextHandle c2 + 1\<rparr>)"

text \<open>
  \<open>connect(onData, onStatus)\<close>: each argument is a function or is left out
  (\<open>undefined\<close>), and the field says which.
\<close>

definition connect :: "bool \<Rightarrow> bool \<Rightarrow> 'a SSEClient \<Rightarrow> 'a SSEClient" where
  "connect dataCallback statusCallback c =
     open_source (c\<lparr>onData := dataCallback, onStatus := statusCallback\<rparr>)"

definition reconnect :: "'a SSEClient \<Rightarrow> 'a SSEClient" where
  "reconnect c = open_source (c\<lparr>retryCount := 0, backoff := INITIAL_BACKOFF\<rparr>)"

definition onopen :: "'a SSEClient \<Rightarrow> 'a SSEClient" where
  "onopen c = notify Connected (c\<lparr>retryCount := 0, backoff := INITIAL_BACKOFF\<rparr>)"

text \<open>
  \<open>onmessage\<close>: the argument is what \<open>JSON.parse\<close> makes of the frame, \<open>None\<close> when
  it throws.
\<close>

definition onmessage :: "'a option \<Rightarrow> 'a SSEClient \<Rightarrow> 'a SSEClient" where
  "onmessage parsed c =
     (case parsed of
        Some d \<Rightarrow>
          let c1 = c\<lparr>lastData := Some d, retryCount := 0\<rparr>
          in if onData c1 then c1\<lparr>dataCalls := dataCalls c1 @ [d]\<rparr> else c1
      | None \<Rightarrow> c)"

definition onerror :: "'a SSEClient \<Rightarrow> 'a SSEClient" where
  "onerror c =
     (let c1 = close c;
          c2 = c1\<lparr>retryCount := retryCount c1 + 1\<rparr>
      in if retryCount c2 \<ge> MAX_RETRIES then notify Disconnected c2
         else
           let c3 = notify Reconnecting c2
           in c3\<lparr>reconnectTimeout := Some (nextHandle c3),
                 pendingTimers := pendingTimers c3 @ [(nextHandle c3, backoff c3)],
                 scheduled := scheduled c3 @ [backoff c3],
                 nextHandle := nextHandle c3 + 1,
                 backoff := min (backoff c3 * 2) MAX_BACKOFF\<rparr>)"

text \<open>
  What can happen to a client: the two calls of its user, the three events of a live
  event source, and the firing of a pending timer, whose callback is \<open>_open\<close>. An event
  of a source that is not open, or of a timer that is not pending, cannot happen.
\<close>

datatype 'a event =
  Connect bool bool
| Reconnect
| OnOpen nat
| OnMessage nat "'a option"
| OnError nat
| TimerFires nat

fun step :: "'a SSEClient \<Rightarrow> 'a event \<Rightarrow> 'a SSEClient option" where
  "step c (Connect dataCallback statusCallback) = Some (connect dataCallback statusCallback c)"
| "step c Reconnect = Some (reconnect c)"
| "step c (OnOpen h) = (if h \<in> set (openSources c) then Some (onopen c) else None)"
| "step c (OnMessage h parsed) =
     (if h \<in> set (openSources c) then Some (onmessage parsed c) else None)"
| "step c (OnError h) = (if h \<in> set (openSources c) then Some (onerror c) else None)"
| "step c (TimerFires t) =
     (if t \<in> fst ` set (pendingTimers c)
      then Some (open_source (c\<lparr>pendingTimers := filter (\<lambda>p. fst p \<noteq> t) (pendingTimers c)\<rparr>))
      else None)"

fun run :: "'a SSEClient \<Rightarrow> 'a event list \<Rightarrow> 'a SSEClient option" where
  "run c [] = Some c"
| "run c (e # es) = (case step c e of None \<Rightarrow> None | Some c' \<Rightarrow> run c' es)"

text \<open>
  The events between consecutive transport errors: the errors themselves, the firing
  of the reconnect timer, and frames that do not parse.
\<close>

fun failure_event :: "'a event \<Rightarrow> bool" where
  "failure_event (OnError h) = True"
| "failure_event (TimerFires t) = True"
| "failure_event (OnMessage h None) = True"
| "failure_event e = False"

fun is_error :: "'a event \<Rightarrow> bool" where
  "is_error (OnError h) = True"
| "is_error e = False"

text \<open>
  The open event sources are the one in \<open>eventSource\<close>, if any, and a pending timer
  is the one in \<open>reconnectTimeout\<close>.
\<close>

definition single_transport :: "'a SSEClient \<Rightarrow> bool" where
  "single_transport c =
     (openSources c = (case eventSource c of None \<Rightarrow> [] | Some h \<Rightarrow> [h]) \<and>
      (pendingTimers c = [] \<or>
       map (\<lambda>p. Some (fst p)) (pendingTimers c) = [reconnectTimeout c]))"

text \<open>The delays of the first \<open>k\<close> reconnect timers when the backoff doubles up to the cap.\<close>

definition delays :: "nat \<Rightarrow> nat list" where
  "delays k = map (\<lambda>j. min (INITIAL_BACKOFF * 2 ^ j) MAX_BACKOFF) [0..<k]"

section \<open>Concrete inputs\<close>

text \<open>Every provider answers in time with the value \<open>i\<close>.\<close>

definition healthy :: "nat \<Rightarrow> metric_key \<Rightarrow> nat option call" where
  "healthy i key = Returns (OperationFirst (Fulfilled (Some i)))"





text \<open>
  Sixty-five calls within one millisecond: the \<open>i\<close>-th call reads the value \<open>i\<close> from
  every provider, and the clock reads 1000 each time.
\<close>

definition same_millisecond :: "((metric_key \<Rightarrow> nat option call) \<times> int) list" where
  "same_millisecond = map (\<lambda>i. (healthy i, 1000)) [1..<66]"

text \<open>A serializer that succeeds, and a connection whose \<open>write\<close> throws.\<close>

definition plain :: "string \<Rightarrow> js_error + string" where
  "plain s = Inr s"

definition dead :: "nat \<Rightarrow> nat \<Rightarrow> bool" where
  "dead c res = (res = c)"

text \<open>
  The server is down: after \<open>connect\<close> on a new client, \<open>k\<close> times an error of the live event source
  and then the firing of the reconnect timer that the error handler set. Handles are
  given out in order, starting with 1 for the event source of \<open>connect\<close>.
\<close>

definition failed_attempts :: "nat \<Rightarrow> unit event list" where
  "failed_attempts k = concat (map (\<lambda>i. [OnError (2 * i + 1), TimerFires (2 * i + 2)]) [0..<k])"

text \<open>The state after ten failed attempts in a row.\<close>

definition tripped :: "unit SSEClient" where
  "tripped =
     \<lparr>eventSource = None, retryCount = 10, lastData = None, onData = True, onStatus = True,
      backoff = 30000, reconnectTimeout = None, openSources = [], pendingTimers = [],
      nextHandle = 20,
      scheduled = [1000, 2000, 4000, 8000, 16000, 30000, 30000, 30000, 30000],
      statusCalls =
        [Reconnecting, Reconnecting, Reconnecting, Reconnecting, Reconnecting,
         Reconnecting, Reconnecting, Reconnecting, Reconnecting, Reconnecting,
         Reconnecting, Reconnecting, Reconnecting, Reconnecting, Reconnecting,
         Reconnecting, Reconnecting, Reconnecting, Reconnecting, Disconnected],
      dataCalls = []\<rparr>"

text \<open>A client that is connected.\<close>

definition streaming :: "unit SSEClient" where
  "streaming = onopen (connect True True new_SSEClient)"

section \<open>The outcome of the timeout guard\<close>

lemma startsWith_iff: "startsWith s t \<longleftrightarrow> (\<exists>q. s = t @ q)"
  by (induction s t rule: startsWith.induct) auto

lemma str_includes_iff: "str_includes s t \<longleftrightarrow> (\<exists>p q. s = p @ t @ q)"
proof (induction s)
  case Nil
  then show ?case by auto
next
  case (Cons x xs)
  show ?case
  proof
    assume "str_includes (x # xs) t"
    then consider "startsWith (x # xs) t" | "str_includes xs t" by auto
    then show "\<exists>p q. x # xs = p @ t @ q"
    proof cases
      case 1
      then obtain q where "x # xs = t @ q" by (auto simp: startsWith_iff)
      then have "x # xs = [] @ t @ q" by simp
      then show ?thesis by blast
    next
      case 2
      then obtain p q where "xs = p @ t @ q" using Cons.IH by blast
      then have "x # xs = (x # p) @ t @ q" by simp
      then show ?thesis by blast
    qed
  next
    assume "\<exists>p q. x # xs = p @ t @ q"
    then obtain p q where pq: "x # xs = p @ t @ q" by blast
    show "str_includes (x # xs) t"
    proof (cases p)
      case Nil
      then have "startsWith (x # xs) t" using pq by (auto simp: startsWith_iff)
      then show ?thesis by simp
    next
      case (Cons y ys)
      then have "xs = ys @ t @ q" using pq by simp
      then have "str_includes xs t" using Cons.IH by blast
      then show ?thesis by simp
    qed
  qed
qed

lemma str_includes_append: "str_includes (p @ t @ q) t"
  by (auto simp: str_includes_iff)

text \<open>Reading the decimal digits of a number gives the number back.\<close>

lemma digit_value_digit_char: "d < 10 \<Longrightarrow> digit_value (digit_char d) = Some d"
proof -
  assume "d < 10"
  then have "d \<in> {0, 1, 2, 3, 4, 5, 6, 7, 8, 9}"
    by auto
  then show ?thesis
    by (auto simp: digit_value_def digit_char_def Let_def)
qed

lemma read_digits_append:
  "read_digits acc (s @ [c]) =
     (case read_digits acc s of
        None \<Rightarrow> None
      | Some v \<Rightarrow> (case digit_value c of None \<Rightarrow> None | Some d \<Rightarrow> Some (10 * v + d)))"
  by (induction s arbitrary: acc) (auto split: option.splits)

lemma decimal_small: "n < 10 \<Longrightarrow> decimal n = [digit_char n]"
  by (subst decimal.simps) simp

lemma decimal_large: "\<not> n < 10 \<Longrightarrow> decimal n = decimal (n div 10) @ [digit_char (n mod 10)]"
  by (subst decimal.simps) simp

lemma decimal_not_empty: "decimal n \<noteq> []"
  by (cases "n < 10") (simp_all add: decimal_small decimal_large)

lemma read_digits_decimal: "read_digits 0 (decimal n) = Some n"
proof (induction n rule: decimal.induct)
  case (1 n)
  show ?case
  proof (cases "n < 10")
    case True
    then show ?thesis
      by (simp add: decimal_small digit_value_digit_char)
  next
    case False
    then have "read_digits 0 (decimal (n div 10)) = Some (n div 10)"
      using "1.IH" by simp
    moreover have "digit_value (digit_char (n mod 10)) = Some (n mod 10)"
      by (simp add: digit_value_digit_char)
    ultimately show ?thesis using False
      by (simp add: decimal_large read_digits_append)
  qed
qed

lemma decimal_value_decimal: "decimal_value (decimal n) = Some n"
  by (simp add: decimal_value_def decimal_not_empty read_digits_decimal)

lemma show_ms_1000: "show_ms 1000 = ''1000''"
  by (simp add: show_ms_def digit_char_def decimal.simps)

lemma show_ms_50: "show_ms 50 = ''50''"
  by (simp add: show_ms_def digit_char_def decimal.simps)


text \<open>
  Claim C7. When the operation settles before the timer fires, the guard settles the
  same way: fulfilled with the same value, \<open>null\<close> and \<open>undefined\<close> (\<open>None\<close>)
  included, or rejected with the same reason. When the timer fires first, the guard
  rejects with the error whose message is \<open>Timeout: operation exceeded\<close>, the deadline
  as the language converts it to a string, and \<open>ms\<close>: the message contains \<open>Timeout\<close>
  and it contains the deadline. For a deadline of whole milliseconds that a timer takes,
  what stands there is a string of decimal digits that denotes the deadline; for 50 ms
  the message is \<open>Timeout: operation exceeded 50ms\<close>.
\<close>

theorem withTimeout_race:
  "withTimeout toString (OperationFirst (Fulfilled v)) ms = Fulfilled v \<and>
   withTimeout toString (OperationFirst (Fulfilled None)) ms = Fulfilled None \<and>
   withTimeout toString (OperationFirst (Rejected reason)) ms = Rejected reason \<and>
   withTimeout toString TimerFirst ms =
     Rejected (ErrorObj (''Timeout: operation exceeded '' @ toString ms @ ''ms'')) \<and>
   str_includes (''Timeout: operation exceeded '' @ toString ms @ ''ms'') ''Timeout'' \<and>
   str_includes (''Timeout: operation exceeded '' @ toString ms @ ''ms'') (toString ms) \<and>
   (\<exists>digits. withTimeout show_ms TimerFirst w =
        Rejected (ErrorObj (''Timeout: operation exceeded '' @ digits @ ''ms'')) \<and>
      decimal_value digits = Some (unat w)) \<and>
   withTimeout show_ms TimerFirst 50 = Rejected (ErrorObj ''Timeout: operation exceeded 50ms'') \<and>
   withTimeout show_ms TimerFirst 1000 =
     Rejected (ErrorObj ''Timeout: operation exceeded 1000ms'')"
proof -
  have a: "str_includes (''Timeout: operation exceeded '' @ toString ms @ ''ms'') ''Timeout''"
    using str_includes_append [of "[]" "''Timeout''" "'': operation exceeded '' @ toString ms @ ''ms''"]
    by simp
  have b: "str_includes (''Timeout: operation exceeded '' @ toString ms @ ''ms'') (toString ms)"
    by (rule str_includes_append)
  have c: "\<exists>digits. withTimeout show_ms TimerFirst w =
        Rejected (ErrorObj (''Timeout: operation exceeded '' @ digits @ ''ms'')) \<and>
      decimal_value digits = Some (unat w)"
    by (rule exI [of _ "decimal (unat w)"])
       (simp add: withTimeout_def timeoutError_def show_ms_def decimal_value_decimal)
  show ?thesis
    using a b c by (simp add: withTimeout_def timeoutError_def show_ms_50 show_ms_1000)
qed

section \<open>Classification and fallback in the orchestrator\<close>

lemma timeout_1000:
  "withTimeout show_ms TimerFirst 1000 = Rejected (ErrorObj ''Timeout: operation exceeded 1000ms'') \<and>
   isTimeout (ErrorObj ''Timeout: operation exceeded 1000ms'') = Inr True \<and>
   errorText (ErrorObj ''Timeout: operation exceeded 1000ms'') = ''Timeout: operation exceeded 1000ms''"
proof -
  have "str_includes (''Timeout'' @ '': operation exceeded 1000ms'') ''Timeout''"
    using str_includes_append [of "[]" "''Timeout''" "'': operation exceeded 1000ms''"] by simp
  then show ?thesis
    by (simp add: withTimeout_def timeoutError_def show_ms_1000 errorText_def)
qed


lemma isTimeout_iff:
  "isTimeout reason = Inr t \<Longrightarrow> t \<longleftrightarrow> (\<exists>m. message reason = Some m \<and> str_includes m ''Timeout'')"
  by (cases reason) auto

lemma call_all_Inr:
  "call_all cs = Inr rs \<Longrightarrow>
     list_all2 (\<lambda>c r. \<exists>p. c = Returns p \<and> r = withTimeout show_ms p 1000) cs rs"
proof (induction cs arbitrary: rs)
  case Nil
  then show ?case by simp
next
  case (Cons c cs)
  show ?case
  proof (cases c)
    case (ThrowsSync e)
    with Cons.prems show ?thesis by simp
  next
    case (Returns p)
    with Cons.prems obtain rest where
      "call_all cs = Inr rest" "rs = withTimeout show_ms p 1000 # rest"
      by (auto split: sum.splits)
    with Cons.IH Returns show ?thesis by simp
  qed
qed

lemma call_all_returns:
  "list_all (\<lambda>c. \<exists>p. c = Returns p) cs \<Longrightarrow> \<exists>rs. call_all cs = Inr rs"
  by (induction cs) auto

lemma call_all_throws:
  "\<not> list_all (\<lambda>c. \<exists>p. c = Returns p) cs \<Longrightarrow> \<exists>e. call_all cs = Inl (Thrown e)"
proof (induction cs)
  case Nil
  then show ?case by simp
next
  case (Cons c cs)
  show ?case
  proof (cases c)
    case (ThrowsSync e)
    then show ?thesis by simp
  next
    case (Returns p)
    with Cons.prems have "\<not> list_all (\<lambda>c. \<exists>p. c = Returns p) cs" by simp
    from Cons.IH [OF this] Returns show ?thesis by auto
  qed
qed

lemma settle_metric_Inr:
  "result \<noteq> Rejected OtherMessage \<Longrightarrow> \<exists>st'. settle_metric key result st = Inr st'"
proof (cases result)
  case (Fulfilled x)
  then show ?thesis by (cases st; cases x) (simp_all add: settle_metric_def)
next
  case (Rejected reason)
  assume "result \<noteq> Rejected OtherMessage"
  with Rejected show ?thesis by (cases st; cases reason) (simp_all add: settle_metric_def)
qed

lemma settle_metric_Inl:
  "settle_metric key (Rejected OtherMessage) st = Inl TypeError"
  by (cases st) (simp add: settle_metric_def)

lemma settle_metric_other:
  "settle_metric key r st = Inr st' \<Longrightarrow> k \<noteq> key \<Longrightarrow>
     snd st' k = snd st k \<and> lastKnown (fst st') k = lastKnown (fst st) k"
  by (cases st; cases r) (auto simp: settle_metric_def split: option.splits sum.splits)

lemma settle_metric_local:
  "settle_metric k r st = Inr a \<Longrightarrow> lastKnown (fst st) k = lastKnown (fst st') k \<Longrightarrow>
     \<exists>b. settle_metric k r st' = Inr b \<and> snd b k = snd a k \<and>
         lastKnown (fst b) k = lastKnown (fst a) k"
  by (cases st; cases st'; cases r) (auto simp: settle_metric_def split: option.splits sum.splits)

lemma collect_loop_other:
  "collect_loop krs st = (repo', Inr m) \<Longrightarrow> k \<notin> fst ` set krs \<Longrightarrow>
     m k = snd st k \<and> lastKnown repo' k = lastKnown (fst st) k"
proof (induction krs arbitrary: st)
  case Nil
  then show ?case by auto
next
  case (Cons kr krs)
  obtain key r where kr: "kr = (key, r)" by (cases kr)
  with Cons.prems obtain st1 where
    st1: "settle_metric key r st = Inr st1" "collect_loop krs st1 = (repo', Inr m)"
    by (auto split: sum.splits)
  from Cons.prems kr have "k \<noteq> key" "k \<notin> fst ` set krs" by auto
  with Cons.IH [OF st1(2)] settle_metric_other [OF st1(1)] show ?case by simp
qed

lemma collect_loop_key:
  "collect_loop krs st = (repo', Inr m) \<Longrightarrow> distinct (map fst krs) \<Longrightarrow> (k, r) \<in> set krs \<Longrightarrow>
     \<exists>a. settle_metric k r st = Inr a \<and> m k = snd a k \<and> lastKnown repo' k = lastKnown (fst a) k"
proof (induction krs arbitrary: st)
  case Nil
  then show ?case by simp
next
  case (Cons kr krs)
  obtain key r' where kr: "kr = (key, r')" by (cases kr)
  with Cons.prems obtain st1 where
    st1: "settle_metric key r' st = Inr st1" "collect_loop krs st1 = (repo', Inr m)"
    by (auto split: sum.splits)
  show ?case
  proof (cases "key = k")
    case True
    with Cons.prems kr have "r' = r" "k \<notin> fst ` set krs" by (auto simp: image_iff)
    with collect_loop_other [OF st1(2), of k] st1(1) True show ?thesis by auto
  next
    case False
    with Cons.prems kr have "distinct (map fst krs)" "(k, r) \<in> set krs" by auto
    from Cons.IH [OF st1(2) this] obtain a1 where
      a1: "settle_metric k r st1 = Inr a1" "m k = snd a1 k"
          "lastKnown repo' k = lastKnown (fst a1) k"
      by blast
    from settle_metric_other [OF st1(1), of k] False
    have "lastKnown (fst st1) k = lastKnown (fst st) k" by simp
    from settle_metric_local [OF a1(1) this] a1(2,3) show ?thesis by auto
  qed
qed

lemma collect_loop_returns:
  "\<forall>kr \<in> set krs. snd kr \<noteq> Rejected OtherMessage \<Longrightarrow>
     \<exists>repo' m. collect_loop krs st = (repo', Inr m)"
proof (induction krs arbitrary: st)
  case Nil
  then show ?case by simp
next
  case (Cons kr krs)
  obtain key r where kr: "kr = (key, r)" by (cases kr)
  with Cons.prems have "r \<noteq> Rejected OtherMessage" by simp
  from settle_metric_Inr [OF this, of key st] obtain st1 where
    "settle_metric key r st = Inr st1" by blast
  with Cons.IH [of st1] Cons.prems kr show ?case by simp
qed

text \<open>What a call that returns says about each key and its collector.\<close>

lemma getSystemMetrics_key:
  assumes "getSystemMetrics collectors repo = (repo', Inr m)"
  shows "\<exists>p a. collectors k = Returns p \<and>
           settle_metric k (withTimeout show_ms p 1000) (repo, Map.empty) = Inr a \<and>
           m k = snd a k \<and> lastKnown repo' k = lastKnown (fst a) k"
proof -
  from assms obtain results where
    c: "call_all (map collectors keys) = Inr results"
    and l: "collect_loop (zip keys results) (repo, Map.empty) = (repo', Inr m)"
    by (auto simp: getSystemMetrics_def split: sum.splits)
  note a = call_all_Inr [OF c]
  then have len: "length results = length keys"
    by (auto dest: list_all2_lengthD)
  have k: "k \<in> set keys" by (cases k) (simp_all add: keys_def)
  then obtain i where i: "i < length keys" "keys ! i = k"
    by (auto simp: in_set_conv_nth)
  from a i len obtain p where
    p: "collectors k = Returns p" "results ! i = withTimeout show_ms p 1000"
    by (auto simp: list_all2_conv_all_nth)
  have z: "(k, withTimeout show_ms p 1000) \<in> set (zip keys results)"
    using i len p(2) by (auto simp: in_set_zip)
  have d: "distinct (map fst (zip keys results))"
    using len by (simp add: keys_def)
  from collect_loop_key [OF l d z] p(1) show ?thesis by blast
qed

lemma getSystemMetrics_returns:
  assumes "orderly collectors"
  shows "\<exists>repo' m. getSystemMetrics collectors repo = (repo', Inr m)"
proof -
  have o: "\<And>k. orderly_call (collectors k)"
  proof -
    fix k
    have "k \<in> set keys" by (cases k) (simp_all add: keys_def)
    with assms show "orderly_call (collectors k)"
      by (simp add: orderly_def list_all_iff)
  qed
  have r: "\<exists>p. c = Returns p" if "orderly_call c" for c :: "'a option call"
    using that by (cases c) auto
  have "list_all (\<lambda>c. \<exists>p. c = Returns p) (map collectors keys)"
    using o r by (simp add: list_all_iff)
  from call_all_returns [OF this] obtain results where
    c: "call_all (map collectors keys) = Inr results" by blast
  note a = call_all_Inr [OF c]
  have "\<forall>kr \<in> set (zip keys results). snd kr \<noteq> Rejected OtherMessage"
  proof
    fix kr
    assume "kr \<in> set (zip keys results)"
    then obtain i where i: "i < length keys" "i < length results" "kr = (keys ! i, results ! i)"
      by (auto simp: in_set_zip)
    with a obtain p where p: "collectors (keys ! i) = Returns p"
      "results ! i = withTimeout show_ms p 1000"
      by (auto simp: list_all2_conv_all_nth)
    from o [of "keys ! i"] p(1) have "p \<noteq> OperationFirst (Rejected OtherMessage)"
      by auto
    then have "withTimeout show_ms p 1000 \<noteq> Rejected OtherMessage"
      by (cases p) (auto simp: withTimeout_def timeoutError_def)
    with i(3) p(2) show "snd kr \<noteq> Rejected OtherMessage" by simp
  qed
  from collect_loop_returns [OF this, of "(repo, Map.empty)"] c
  show ?thesis by (simp add: getSystemMetrics_def)
qed


lemma getSystemMetrics_value:
  assumes "getSystemMetrics collectors repo = (repo', Inr metrics)"
    and "collectors k = Returns (OperationFirst (Fulfilled (Some v)))"
  shows "metrics k = Some \<lparr>status = Ok, data = Some v, error = None\<rparr> \<and> lastKnown repo' k = Some v"
  using getSystemMetrics_key [OF assms(1), of k] assms(2)
  by (auto simp: settle_metric_def withTimeout_def)

lemma getSystemMetrics_null:
  assumes "getSystemMetrics collectors repo = (repo', Inr metrics)"
    and "collectors k = Returns (OperationFirst (Fulfilled None))"
  shows "metrics k = Some \<lparr>status = Unavailable, data = lastKnown repo k,
                           error = Some (key_name k @ '' returned null'')\<rparr> \<and>
         lastKnown repo' k = lastKnown repo k"
  using getSystemMetrics_key [OF assms(1), of k] assms(2)
  by (auto simp: settle_metric_def withTimeout_def)

lemma getSystemMetrics_rejected:
  assumes "getSystemMetrics collectors repo = (repo', Inr metrics)"
    and "collectors k = Returns (OperationFirst (Rejected reason))"
  shows "metrics k =
           Some \<lparr>status = (if \<exists>m. message reason = Some m \<and> str_includes m ''Timeout''
                            then Degraded else Unavailable),
                 data = lastKnown repo k, error = Some (errorText reason)\<rparr> \<and>
         lastKnown repo' k = lastKnown repo k \<and> reason \<noteq> OtherMessage"
  using getSystemMetrics_key [OF assms(1), of k] assms(2)
  by (cases reason) (auto simp: settle_metric_def withTimeout_def)

lemma getSystemMetrics_timeout:
  assumes "getSystemMetrics collectors repo = (repo', Inr metrics)"
    and "collectors k = Returns TimerFirst"
  shows "metrics k = Some \<lparr>status = Degraded, data = lastKnown repo k,
                           error = Some ''Timeout: operation exceeded 1000ms''\<rparr> \<and>
         lastKnown repo' k = lastKnown repo k"
  using getSystemMetrics_key [OF assms(1), of k] assms(2)
  by (auto simp: settle_metric_def timeout_1000)

lemma call_cases:
  obtains e where "c = ThrowsSync e"
  | v where "c = Returns (OperationFirst (Fulfilled (Some v)))"
  | "c = Returns (OperationFirst (Fulfilled None))"
  | reason where "c = Returns (OperationFirst (Rejected reason))"
  | "c = Returns TimerFirst"
proof (cases c)
  case (ThrowsSync e)
  then show ?thesis using that by auto
next
  case (Returns p)
  show ?thesis
  proof (cases p)
    case (OperationFirst s)
    show ?thesis
    proof (cases s)
      case (Fulfilled x)
      then show ?thesis using Returns OperationFirst that by (cases x) auto
    next
      case (Rejected r)
      then show ?thesis using Returns OperationFirst that by auto
    qed
  next
    case TimerFirst
    then show ?thesis using Returns that by auto
  qed
qed

lemma getSystemMetrics_store:
  assumes g: "getSystemMetrics collectors repo = (repo', Inr metrics)"
  shows "\<exists>r. metrics k = Some r \<and> (status r = Ok \<longrightarrow> data r \<noteq> None) \<and>
          lastKnown repo' k = (if status r = Ok then data r else lastKnown repo k)"
proof (cases "collectors k" rule: call_cases)
  case (1 e)
  then show ?thesis using getSystemMetrics_key [OF g, of k] by auto
next
  case (2 v)
  then show ?thesis using getSystemMetrics_value [OF g] by simp
next
  case 3
  then show ?thesis using getSystemMetrics_null [OF g] by simp
next
  case (4 reason)
  then show ?thesis using getSystemMetrics_rejected [OF g] by simp
next
  case 5
  then show ?thesis using getSystemMetrics_timeout [OF g] by simp
qed




lemma collect_loop_raises:
  "\<exists>kr \<in> set krs. snd kr = Rejected OtherMessage \<Longrightarrow>
     \<exists>repo'. collect_loop krs st = (repo', Inl TypeError)"
proof (induction krs arbitrary: st)
  case Nil
  then show ?case by simp
next
  case (Cons kr krs)
  obtain key r where kr: "kr = (key, r)" by (cases kr)
  show ?case
  proof (cases "r = Rejected OtherMessage")
    case True
    then show ?thesis using kr by (simp add: settle_metric_Inl)
  next
    case False
    from settle_metric_Inr [OF this, of key st] obtain st1 where
      s: "settle_metric key r st = Inr st1" by blast
    from Cons.prems kr False have "\<exists>kr \<in> set krs. snd kr = Rejected OtherMessage" by auto
    from Cons.IH [OF this, of st1] s kr show ?thesis by simp
  qed
qed

text \<open>
  A cycle that is not orderly ends with an exception: the value that the first
  throwing call threw, or else the \<open>TypeError\<close> of the loop.
\<close>

lemma getSystemMetrics_raises:
  assumes "\<not> orderly collectors"
  shows "\<exists>repo' e. getSystemMetrics collectors repo = (repo', Inl e)"
proof (cases "list_all (\<lambda>c. \<exists>p. c = Returns p) (map collectors keys)")
  case False
  from call_all_throws [OF this] show ?thesis
    by (auto simp: getSystemMetrics_def)
next
  case True
  from call_all_returns [OF this] obtain results where
    c: "call_all (map collectors keys) = Inr results" by blast
  note a = call_all_Inr [OF c]
  then have len: "length results = length keys"
    by (auto dest: list_all2_lengthD)
  from assms obtain k where k: "k \<in> set keys" "\<not> orderly_call (collectors k)"
    by (auto simp: orderly_def list_all_iff)
  then obtain i where i: "i < length keys" "keys ! i = k"
    by (auto simp: in_set_conv_nth)
  from a i len obtain p where
    p: "collectors k = Returns p" "results ! i = withTimeout show_ms p 1000"
    by (auto simp: list_all2_conv_all_nth)
  have "p = OperationFirst (Rejected OtherMessage)"
    using k(2) p(1) by (cases "collectors k" rule: orderly_call.cases) auto
  then have "results ! i = Rejected OtherMessage"
    using p(2) by (simp add: withTimeout_def)
  then have "(k, Rejected OtherMessage) \<in> set (zip keys results)"
    using i len by (auto simp: in_set_zip)
  then have "\<exists>kr \<in> set (zip keys results). snd kr = Rejected OtherMessage"
    by force
  from collect_loop_raises [OF this, of "(repo, Map.empty)"] c show ?thesis
    by (auto simp: getSystemMetrics_def)
qed

lemma orderly_healthy: "orderly (healthy i)"
  by (simp add: orderly_def healthy_def keys_def)

lemma healthy_results:
  "\<exists>repo' m. getSystemMetrics (healthy i) repo = (repo', Inr m) \<and>
     (\<forall>k. m k = Some \<lparr>status = Ok, data = Some i, error = None\<rparr>)"
proof -
  from getSystemMetrics_returns [OF orderly_healthy, of i repo] obtain repo' m where
    g: "getSystemMetrics (healthy i) repo = (repo', Inr m)" by blast
  have "m k = Some \<lparr>status = Ok, data = Some i, error = None\<rparr>" for k
    using getSystemMetrics_value [OF g, of k i] by (simp add: healthy_def)
  with g show ?thesis by blast
qed






section \<open>Global status and the snapshot\<close>

lemma computeGlobalStatus_four:
  "computeGlobalStatus [c, m, d, p] =
     (if c = Ok \<and> m = Ok \<and> d = Ok \<and> p = Ok then GlobalOk
      else if c = Unavailable \<and> m = Unavailable \<and> d = Unavailable \<and> p = Unavailable
      then GlobalCritical else GlobalDegraded)"
  by (simp add: computeGlobalStatus_def)

lemma getCurrentMetrics_returns:
  assumes g: "getSystemMetrics collectors (repository svc) = (repo, Inr metrics)"
  obtains c m d p cu mp where
    "metrics Cpu = Some c" "metrics Memory = Some m" "metrics Disk = Some d"
    "metrics Processes = Some p"
    "ok_property usage (metrics Cpu) = Inr cu" "ok_property percentage (metrics Memory) = Inr mp"
    "getCurrentMetrics usage percentage collectors now svc =
       (svc\<lparr>repository := repo,
             history := (history svc)[historyIndex svc mod HISTORY_SIZE :=
                          Some \<lparr>cpu = cu, memory = mp, timestamp = now\<rparr>],
             historyIndex := historyIndex svc + 1\<rparr>,
        Inr [(''timestamp'', Number now),
             (''status'', Status (computeGlobalStatus [status c, status m, status d, status p])),
             (''cpu'', Result c), (''memory'', Result m), (''disk'', Result d),
             (''processes'', Result p),
             (''history'', Samples (getHistory (svc\<lparr>repository := repo,
                history := (history svc)[historyIndex svc mod HISTORY_SIZE :=
                          Some \<lparr>cpu = cu, memory = mp, timestamp = now\<rparr>],
                historyIndex := historyIndex svc + 1\<rparr>)))])"
proof -
  from getSystemMetrics_store [OF g, of Cpu] obtain c where
    c: "metrics Cpu = Some c" "status c = Ok \<longrightarrow> data c \<noteq> None" by blast
  from getSystemMetrics_store [OF g, of Memory] obtain m where
    m: "metrics Memory = Some m" "status m = Ok \<longrightarrow> data m \<noteq> None" by blast
  from getSystemMetrics_store [OF g, of Disk] obtain d where d: "metrics Disk = Some d" by blast
  from getSystemMetrics_store [OF g, of Processes] obtain p where p: "metrics Processes = Some p" by blast
  have "\<exists>cu. ok_property usage (metrics Cpu) = Inr cu"
    using c by (cases "data c") (simp_all add: ok_property_def)
  then obtain cu where cu: "ok_property usage (metrics Cpu) = Inr cu" ..
  have "\<exists>mp. ok_property percentage (metrics Memory) = Inr mp"
    using m by (cases "data m") (simp_all add: ok_property_def)
  then obtain mp where mp: "ok_property percentage (metrics Memory) = Inr mp" ..
  show ?thesis
    by (rule that [OF c(1) m(1) d p cu mp])
       (simp add: getCurrentMetrics_def g cu [unfolded c(1)] mp [unfolded m(1)] c(1) m(1) d p
          Let_def getHistory_def)
qed

text \<open>
  Claim C2. For all statuses of cpu, memory, disk and processes, the global status is
  \<open>GlobalOk\<close> exactly when all four are \<open>Ok\<close>, \<open>GlobalCritical\<close> exactly when all
  four are \<open>Unavailable\<close>, and \<open>GlobalDegraded\<close> exactly in the remaining cases; and
  the \<open>status\<close> field of the object that \<open>getCurrentMetrics\<close> returns is the global
  status computed from the statuses of these four results of the collection.
\<close>

theorem global_status_matrix:
  "(computeGlobalStatus [c, m, d, p] = GlobalOk \<longleftrightarrow> c = Ok \<and> m = Ok \<and> d = Ok \<and> p = Ok) \<and>
   (computeGlobalStatus [c, m, d, p] = GlobalCritical \<longleftrightarrow>
      c = Unavailable \<and> m = Unavailable \<and> d = Unavailable \<and> p = Unavailable) \<and>
   (computeGlobalStatus [c, m, d, p] = GlobalDegraded \<longleftrightarrow>
      \<not> (c = Ok \<and> m = Ok \<and> d = Ok \<and> p = Ok) \<and>
      \<not> (c = Unavailable \<and> m = Unavailable \<and> d = Unavailable \<and> p = Unavailable)) \<and>
   (getSystemMetrics collectors (repository svc) = (repo, Inr metrics) \<longrightarrow>
      (\<exists>rc rm rd rp snap.
         metrics Cpu = Some rc \<and> metrics Memory = Some rm \<and> metrics Disk = Some rd \<and>
         metrics Processes = Some rp \<and>
         snd (getCurrentMetrics usage percentage collectors now svc) = Inr snap \<and>
         map_of snap ''status'' =
           Some (Status (computeGlobalStatus [status rc, status rm, status rd, status rp]))))"
proof -
  have link: "\<exists>rc rm rd rp snap.
         metrics Cpu = Some rc \<and> metrics Memory = Some rm \<and> metrics Disk = Some rd \<and>
         metrics Processes = Some rp \<and>
         snd (getCurrentMetrics usage percentage collectors now svc) = Inr snap \<and>
         map_of snap ''status'' =
           Some (Status (computeGlobalStatus [status rc, status rm, status rd, status rp]))"
    if g: "getSystemMetrics collectors (repository svc) = (repo, Inr metrics)"
  proof -
    from getCurrentMetrics_returns [OF g, of usage percentage now]
    obtain rc rm rd rp cu mp where
      r: "metrics Cpu = Some rc" "metrics Memory = Some rm" "metrics Disk = Some rd"
         "metrics Processes = Some rp"
      and "snd (getCurrentMetrics usage percentage collectors now svc) =
        Inr [(''timestamp'', Number now),
             (''status'', Status (computeGlobalStatus [status rc, status rm, status rd, status rp])),
             (''cpu'', Result rc), (''memory'', Result rm), (''disk'', Result rd),
             (''processes'', Result rp),
             (''history'', Samples (getHistory (svc\<lparr>repository := repo,
                history := (history svc)[historyIndex svc mod HISTORY_SIZE :=
                          Some \<lparr>cpu = cu, memory = mp, timestamp = now\<rparr>],
                historyIndex := historyIndex svc + 1\<rparr>)))]"
      by (metis snd_conv)
    then show ?thesis by simp
  qed
  show ?thesis
    using link by (simp add: computeGlobalStatus_four)
qed

theorem global_status_matrix_witness:
  "computeGlobalStatus [Ok, Unavailable, Ok, Ok] = GlobalDegraded \<and>
   (\<exists>snap. snd (getCurrentMetrics Some Some (healthy 7) 1000
                  (new_SystemMonitorService new_MetricsRepository)) = Inr snap \<and>
           map_of snap ''status'' = Some (Status GlobalOk))"
proof -
  let ?svc = "new_SystemMonitorService new_MetricsRepository :: (nat, nat) SystemMonitorService"
  from healthy_results [of 7 "repository ?svc"] obtain repo metrics where
    g: "getSystemMetrics (healthy 7) (repository ?svc) = (repo, Inr metrics)"
    and v: "\<forall>k. metrics k = Some \<lparr>status = Ok, data = Some 7, error = None\<rparr>"
    by blast
  from global_status_matrix [of Ok Unavailable Ok Ok "healthy 7" ?svc repo metrics
      Some Some 1000] g v
  show ?thesis by (simp add: computeGlobalStatus_four)
qed

text \<open>
  Whenever the collection returns, the returned object has these seven fields and
  no others, while the collection has a result for \<open>Network\<close> and for
  \<open>SystemInfo\<close>; and an exception of the collection is the exception of the call.
\<close>

lemma getCurrentMetrics_raises:
  "getSystemMetrics collectors (repository svc) = (repo, Inl e) \<Longrightarrow>
   getCurrentMetrics usage percentage collectors now svc = (svc\<lparr>repository := repo\<rparr>, Inl e)"
  by (simp add: getCurrentMetrics_def)

lemma getCurrentMetrics_fields:
  assumes g: "getSystemMetrics collectors (repository svc) = (repo, Inr metrics)"
  shows "\<exists>snap. snd (getCurrentMetrics usage percentage collectors now svc) = Inr snap \<and>
     map fst snap = [''timestamp'', ''status'', ''cpu'', ''memory'', ''disk'', ''processes'',
                     ''history''] \<and>
     metrics Network \<noteq> None \<and> metrics SystemInfo \<noteq> None"
proof -
  from getSystemMetrics_store [OF g, of Network] getSystemMetrics_store [OF g, of SystemInfo]
  have n: "metrics Network \<noteq> None" "metrics SystemInfo \<noteq> None" by auto
  from getCurrentMetrics_returns [OF g, of usage percentage now]
  obtain c m d p cu mp where
    "getCurrentMetrics usage percentage collectors now svc =
       (svc\<lparr>repository := repo,
             history := (history svc)[historyIndex svc mod HISTORY_SIZE :=
                          Some \<lparr>cpu = cu, memory = mp, timestamp = now\<rparr>],
             historyIndex := historyIndex svc + 1\<rparr>,
        Inr [(''timestamp'', Number now),
             (''status'', Status (computeGlobalStatus [status c, status m, status d, status p])),
             (''cpu'', Result c), (''memory'', Result m), (''disk'', Result d),
             (''processes'', Result p),
             (''history'', Samples (getHistory (svc\<lparr>repository := repo,
                history := (history svc)[historyIndex svc mod HISTORY_SIZE :=
                          Some \<lparr>cpu = cu, memory = mp, timestamp = now\<rparr>],
                historyIndex := historyIndex svc + 1\<rparr>)))])"
    by metis
  then show ?thesis using n g by simp
qed

text \<open>
  Claim C9 says that the returned snapshot holds, besides the timestamp, the global
  status, the four primary results and the history, also the results for network and
  systemInfo. The object that \<open>getCurrentMetrics\<close> builds has no such fields: here the
  collection gives both results with status \<open>Ok\<close>, and the snapshot is without them.
\<close>

theorem snapshot_without_network:
  "snd (getCurrentMetrics Some Some (healthy 7) 1000
          (new_SystemMonitorService new_MetricsRepository)) =
     Inr [(''timestamp'', Number 1000),
          (''status'', Status GlobalOk),
          (''cpu'', Result \<lparr>status = Ok, data = Some 7, error = None\<rparr>),
          (''memory'', Result \<lparr>status = Ok, data = Some 7, error = None\<rparr>),
          (''disk'', Result \<lparr>status = Ok, data = Some 7, error = None\<rparr>),
          (''processes'', Result \<lparr>status = Ok, data = Some 7, error = None\<rparr>),
          (''history'', Samples [\<lparr>cpu = Some 7, memory = Some 7, timestamp = 1000\<rparr>])] \<and>
   \<not> isl (snd (getSystemMetrics (healthy 7) (new_MetricsRepository :: nat MetricsRepository))) \<and>
   projr (snd (getSystemMetrics (healthy 7) (new_MetricsRepository :: nat MetricsRepository))) Network =
     Some \<lparr>status = Ok, data = Some 7, error = None\<rparr> \<and>
   projr (snd (getSystemMetrics (healthy 7) (new_MetricsRepository :: nat MetricsRepository))) SystemInfo =
     Some \<lparr>status = Ok, data = Some 7, error = None\<rparr>"
  by code_simp

section \<open>The history buffer\<close>

lemma filter_Boolean_length: "length (filter_Boolean slots) \<le> length slots"
  by (induction slots rule: filter_Boolean.induct) auto

lemma getCurrentMetrics_history_length:
  "length (history (fst (getCurrentMetrics usage percentage collectors now svc))) =
     length (history svc)"
  by (simp add: getCurrentMetrics_def Let_def split: prod.splits sum.splits option.splits)

lemma run_service_history_length:
  "length (history (run_service usage percentage calls svc)) = length (history svc)"
  by (induction calls arbitrary: svc) (auto simp: getCurrentMetrics_history_length)

text \<open>After any number of calls on a new service the read has at most 60 entries.\<close>

lemma getHistory_bounded:
  "length (getHistory (run_service usage percentage calls (new_SystemMonitorService repo))) \<le> 60"
proof -
  have "length (history (run_service usage percentage calls (new_SystemMonitorService repo))) = 60"
    by (simp add: run_service_history_length new_SystemMonitorService_def HISTORY_SIZE_def)
  then show ?thesis
    using filter_Boolean_length
      [of "history (run_service usage percentage calls (new_SystemMonitorService repo))"]
    by (simp add: getHistory_def)
qed

lemma ring_layout_length: "length (ring_layout xs) = HISTORY_SIZE"
  by (auto simp: ring_layout_def Let_def HISTORY_SIZE_def)

lemma ring_layout_Nil: "ring_layout [] = replicate HISTORY_SIZE None"
  by (simp add: ring_layout_def HISTORY_SIZE_def)

lemma ring_layout_write_filling:
  assumes "length xs < HISTORY_SIZE"
  shows "(ring_layout xs)[length xs mod HISTORY_SIZE := Some x] = ring_layout (xs @ [x])"
proof -
  let ?n = "length xs"
  have m: "?n mod HISTORY_SIZE = ?n" using assms by simp
  have u: "(map Some xs @ replicate (HISTORY_SIZE - ?n) None)[?n := Some x] =
           map Some xs @ Some x # replicate (HISTORY_SIZE - Suc ?n) None"
    using assms by (cases "HISTORY_SIZE - ?n") (simp_all add: list_update_append)
  show ?thesis
  proof (cases "Suc ?n < HISTORY_SIZE")
    case True
    then show ?thesis using assms u by (simp add: ring_layout_def m)
  next
    case False
    with assms have e: "Suc ?n = HISTORY_SIZE" by simp
    then have "HISTORY_SIZE - Suc ?n = 0" "length (xs @ [x]) mod HISTORY_SIZE = 0"
      "length (xs @ [x]) - HISTORY_SIZE = 0" by simp_all
    then show ?thesis using assms u e by (simp add: ring_layout_def m Let_def)
  qed
qed

lemma ring_layout_write_full:
  assumes "HISTORY_SIZE \<le> length xs"
  shows "(ring_layout xs)[length xs mod HISTORY_SIZE := Some x] = ring_layout (xs @ [x])"
proof -
  let ?n = "length xs"
  let ?k = "?n mod HISTORY_SIZE"
  let ?ys = "drop (?n - HISTORY_SIZE) xs"
  have h: "0 < HISTORY_SIZE" by (simp add: HISTORY_SIZE_def)
  have ly: "length ?ys = HISTORY_SIZE" using assms by simp
  have k: "?k < HISTORY_SIZE" using h by simp
  obtain y rest where ys: "?ys = y # rest" using ly h by (cases ?ys) auto
  have lr: "length rest = HISTORY_SIZE - 1" using ly ys by simp
  have ys': "drop (length (xs @ [x]) - HISTORY_SIZE) (xs @ [x]) = rest @ [x]"
  proof -
    have "drop (Suc ?n - HISTORY_SIZE) (xs @ [x]) = drop (Suc (?n - HISTORY_SIZE)) xs @ [x]"
      using assms h by (simp add: Suc_diff_le)
    also have "drop (Suc (?n - HISTORY_SIZE)) xs = tl ?ys"
      by (simp add: drop_Suc tl_drop)
    finally show ?thesis using ys by simp
  qed
  have old: "ring_layout xs = map Some (drop (HISTORY_SIZE - ?k) ?ys @ take (HISTORY_SIZE - ?k) ?ys)"
    using assms by (simp add: ring_layout_def Let_def)
  have ld: "length (drop (HISTORY_SIZE - ?k) ?ys) = ?k" using ly k by simp
  have tk: "take (HISTORY_SIZE - ?k) ?ys = y # take (HISTORY_SIZE - ?k - 1) rest"
    using k ys by (cases "HISTORY_SIZE - ?k") simp_all
  have upd: "(ring_layout xs)[?k := Some x] =
      map Some (drop (HISTORY_SIZE - ?k) ?ys @ x # take (HISTORY_SIZE - ?k - 1) rest)"
  proof -
    define pre where "pre = map Some (drop (HISTORY_SIZE - ?k) ?ys)"
    define post where "post = map Some (take (HISTORY_SIZE - ?k - 1) rest)"
    have lf: "length pre = ?k" using ld by (simp add: pre_def)
    have "ring_layout xs = pre @ Some y # post"
      unfolding old tk by (simp add: pre_def post_def)
    moreover have "(pre @ Some y # post)[length pre := Some x] = pre @ Some x # post"
      by (rule list_update_length)
    ultimately have "(ring_layout xs)[?k := Some x] = pre @ Some x # post"
      using lf by simp
    then show ?thesis by (simp add: pre_def post_def)
  qed
  have dr: "drop (HISTORY_SIZE - ?k) ?ys = drop (HISTORY_SIZE - ?k - 1) rest"
    using k ys by (cases "HISTORY_SIZE - ?k") simp_all
  have new: "ring_layout (xs @ [x]) =
      map Some (drop (HISTORY_SIZE - Suc ?n mod HISTORY_SIZE) (rest @ [x]) @
                take (HISTORY_SIZE - Suc ?n mod HISTORY_SIZE) (rest @ [x]))"
    using assms ys' by (simp add: ring_layout_def Let_def)
  show ?thesis
  proof (cases "Suc ?k < HISTORY_SIZE")
    case True
    then have s: "Suc ?n mod HISTORY_SIZE = Suc ?k" by (simp add: mod_Suc)
    have a: "HISTORY_SIZE - Suc ?k \<le> length rest" using lr by simp
    have "drop (HISTORY_SIZE - Suc ?k) (rest @ [x]) @ take (HISTORY_SIZE - Suc ?k) (rest @ [x]) =
          drop (HISTORY_SIZE - ?k - 1) rest @ x # take (HISTORY_SIZE - ?k - 1) rest"
      using a by simp
    then show ?thesis unfolding upd new s dr by simp
  next
    case False
    with k have e: "Suc ?k = HISTORY_SIZE" by simp
    then have s: "Suc ?n mod HISTORY_SIZE = 0" by (simp add: mod_Suc)
    have z: "HISTORY_SIZE - ?k - 1 = 0" using e by simp
    have "length (rest @ [x]) = HISTORY_SIZE" using lr h by simp
    then have "drop HISTORY_SIZE (rest @ [x]) @ take HISTORY_SIZE (rest @ [x]) = rest @ [x]"
      by simp
    then show ?thesis unfolding upd new s dr z by simp
  qed
qed

lemma ring_layout_write:
  "(ring_layout xs)[length xs mod HISTORY_SIZE := Some x] = ring_layout (xs @ [x])"
  using ring_layout_write_filling [of xs x] ring_layout_write_full [of xs x]
  by (cases "length xs < HISTORY_SIZE") simp_all

lemma filter_Boolean_append:
  "filter_Boolean (xs @ ys) = filter_Boolean xs @ filter_Boolean ys"
  by (induction xs rule: filter_Boolean.induct) simp_all

lemma filter_Boolean_Some: "filter_Boolean (map Some xs) = xs"
  by (induction xs) simp_all

lemma filter_Boolean_None: "filter_Boolean (replicate n None) = []"
  by (induction n) simp_all

lemma filter_Boolean_ring:
  "mset (filter_Boolean (ring_layout xs)) = mset (drop (length xs - HISTORY_SIZE) xs)"
proof (cases "length xs < HISTORY_SIZE")
  case True
  then show ?thesis
    by (simp add: ring_layout_def filter_Boolean_append filter_Boolean_Some filter_Boolean_None)
next
  case False
  let ?ys = "drop (length xs - HISTORY_SIZE) xs"
  let ?a = "HISTORY_SIZE - length xs mod HISTORY_SIZE"
  have "mset (drop ?a ?ys @ take ?a ?ys) = mset (take ?a ?ys @ drop ?a ?ys)"
    by (simp add: union_commute)
  then have "mset (drop ?a ?ys @ take ?a ?ys) = mset ?ys"
    by (simp only: append_take_drop_id)
  then show ?thesis using False
    by (simp only: ring_layout_def Let_def filter_Boolean_Some if_False)
qed

text \<open>
  When the timestamps of the samples written so far increase strictly, sorting the
  filled slots by timestamp gives the last \<open>HISTORY_SIZE\<close> samples in the order they
  were written.
\<close>

lemma sorted_ring:
  assumes "sorted_wrt (<) (map timestamp xs)"
  shows "sort_key timestamp (filter_Boolean (ring_layout xs)) =
           drop (length xs - HISTORY_SIZE) xs"
proof (rule sort_key_inj_key_eq)
  show "mset (filter_Boolean (ring_layout xs)) = mset (drop (length xs - HISTORY_SIZE) xs)"
    by (rule filter_Boolean_ring)
  have d: "distinct (map timestamp xs)"
    using assms strict_sorted_iff by blast
  then have "inj_on timestamp (set xs)"
    by (simp add: distinct_map)
  moreover have "set (filter_Boolean (ring_layout xs)) \<subseteq> set xs"
    using filter_Boolean_ring [of xs] by (metis set_drop_subset set_mset_mset)
  ultimately show "inj_on timestamp (set (filter_Boolean (ring_layout xs)))"
    by (rule inj_on_subset)
  have "sorted (map timestamp xs)"
    using assms by (rule strict_sorted_imp_sorted)
  then show "sorted (map timestamp (drop (length xs - HISTORY_SIZE) xs))"
    by (simp add: drop_map [symmetric] sorted_wrt_drop)
qed

text \<open>
  A call either writes one sample with the clock reading as its timestamp at the
  cursor and advances the cursor, or leaves the array and the cursor as they were;
  it writes when its collection is orderly.
\<close>

lemma getCurrentMetrics_step:
  "(\<exists>s. timestamp s = now \<and>
     history (fst (getCurrentMetrics usage percentage collectors now svc)) =
       (history svc)[historyIndex svc mod HISTORY_SIZE := Some s] \<and>
     historyIndex (fst (getCurrentMetrics usage percentage collectors now svc)) =
       historyIndex svc + 1) \<or>
   (history (fst (getCurrentMetrics usage percentage collectors now svc)) = history svc \<and>
    historyIndex (fst (getCurrentMetrics usage percentage collectors now svc)) = historyIndex svc)"
proof -
  have w: "\<exists>s. timestamp s = now \<and>
             slots[i := Some \<lparr>cpu = a, memory = b, timestamp = now\<rparr>] = slots[i := Some s]"
    for slots i a b
    by (rule exI [of _ "\<lparr>cpu = a, memory = b, timestamp = now\<rparr>"]) simp
  show ?thesis
    by (auto simp: getCurrentMetrics_def Let_def w split: prod.splits sum.splits option.splits)
qed

lemma getCurrentMetrics_writes:
  assumes "orderly collectors"
  shows "\<exists>s. timestamp s = now \<and>
     history (fst (getCurrentMetrics usage percentage collectors now svc)) =
       (history svc)[historyIndex svc mod HISTORY_SIZE := Some s] \<and>
     historyIndex (fst (getCurrentMetrics usage percentage collectors now svc)) =
       historyIndex svc + 1"
proof -
  from getSystemMetrics_returns [OF assms, of "repository svc"]
  obtain repo metrics where g: "getSystemMetrics collectors (repository svc) = (repo, Inr metrics)"
    by blast
  from getCurrentMetrics_returns [OF g, of usage percentage now]
  obtain cu mp snap where
    "getCurrentMetrics usage percentage collectors now svc =
       (svc\<lparr>repository := repo,
             history := (history svc)[historyIndex svc mod HISTORY_SIZE :=
                          Some \<lparr>cpu = cu, memory = mp, timestamp = now\<rparr>],
             historyIndex := historyIndex svc + 1\<rparr>, snap)"
    by metis
  then show ?thesis
    by (intro exI [of _ "\<lparr>cpu = cu, memory = mp, timestamp = now\<rparr>"]) simp
qed

lemma run_service_layout:
  assumes "history svc = ring_layout xs" "historyIndex svc = length xs"
  shows "history (run_service usage percentage calls svc) =
           ring_layout (xs @ written_samples usage percentage calls svc) \<and>
         set (map timestamp (written_samples usage percentage calls svc)) \<subseteq> set (map snd calls) \<and>
         (sorted_wrt (<) (map snd calls) \<longrightarrow>
            sorted_wrt (<) (map timestamp (written_samples usage percentage calls svc))) \<and>
         (list_all (\<lambda>call. orderly (fst call)) calls \<longrightarrow>
            map timestamp (written_samples usage percentage calls svc) = map snd calls)"
  using assms
proof (induction calls arbitrary: svc xs)
  case Nil
  then show ?case by simp
next
  case (Cons call calls)
  obtain collectors now where call: "call = (collectors, now)" by (cases call)
  let ?svc' = "fst (getCurrentMetrics usage percentage collectors now svc)"
  let ?W = "written_samples usage percentage calls ?svc'"
  from getCurrentMetrics_step [of now usage percentage collectors svc]
  consider s where "timestamp s = now"
      "history ?svc' = (history svc)[historyIndex svc mod HISTORY_SIZE := Some s]"
      "historyIndex ?svc' = historyIndex svc + 1"
    | "history ?svc' = history svc" "historyIndex ?svc' = historyIndex svc"
    by blast
  then show ?case
  proof cases
    case 1
    have i: "historyIndex svc mod HISTORY_SIZE < length (history svc)"
      using Cons.prems(1) by (simp add: ring_layout_length HISTORY_SIZE_def)
    have w: "written_samples usage percentage (call # calls) svc = s # ?W"
      using 1(2,3) i by (simp add: call Let_def)
    have h: "history ?svc' = ring_layout (xs @ [s])"
      using 1(2) Cons.prems ring_layout_write [of xs s] by simp
    have n: "historyIndex ?svc' = length (xs @ [s])"
      using 1(3) Cons.prems(2) by simp
    note ih = Cons.IH [OF h n]
    have a: "history (run_service usage percentage (call # calls) svc) =
               ring_layout (xs @ written_samples usage percentage (call # calls) svc)"
      using ih w by (simp add: call)
    have b: "set (map timestamp (written_samples usage percentage (call # calls) svc)) \<subseteq>
               set (map snd (call # calls))"
      using ih w 1(1) by (auto simp: call)
    have c: "sorted_wrt (<) (map timestamp (written_samples usage percentage (call # calls) svc))"
      if "sorted_wrt (<) (map snd (call # calls))"
    proof -
      from that have "\<forall>x \<in> set (map snd calls). now < x" "sorted_wrt (<) (map snd calls)"
        by (simp_all add: call)
      with ih have "\<forall>x \<in> set (map timestamp ?W). now < x" "sorted_wrt (<) (map timestamp ?W)"
        by blast+
      then show ?thesis using w 1(1) by simp
    qed
    have d: "map timestamp (written_samples usage percentage (call # calls) svc) =
               map snd (call # calls)"
      if "list_all (\<lambda>call. orderly (fst call)) (call # calls)"
      using that ih w 1(1) by (simp add: call)
    from a b c d show ?thesis by blast
  next
    case 2
    have w: "written_samples usage percentage (call # calls) svc = ?W"
      using 2(2) by (simp add: call Let_def)
    have h: "history ?svc' = ring_layout xs" using 2(1) Cons.prems(1) by simp
    have n: "historyIndex ?svc' = length xs" using 2(2) Cons.prems(2) by simp
    note ih = Cons.IH [OF h n]
    have a: "history (run_service usage percentage (call # calls) svc) =
               ring_layout (xs @ written_samples usage percentage (call # calls) svc)"
      using ih w by (simp add: call)
    have b: "set (map timestamp (written_samples usage percentage (call # calls) svc)) \<subseteq>
               set (map snd (call # calls))"
      using ih w by (auto simp: call)
    have c: "sorted_wrt (<) (map timestamp (written_samples usage percentage (call # calls) svc))"
      if "sorted_wrt (<) (map snd (call # calls))"
      using that ih w by (simp add: call)
    have d: "map timestamp (written_samples usage percentage (call # calls) svc) =
               map snd (call # calls)"
      if "list_all (\<lambda>call. orderly (fst call)) (call # calls)"
    proof -
      from that have "orderly collectors" by (simp add: call)
      from getCurrentMetrics_writes [OF this, of now usage percentage svc] 2(2)
      show ?thesis by simp
    qed
    from a b c d show ?thesis by blast
  qed
qed

text \<open>
  When the clock reading of every call is later than that of the call before, the
  history read after any number of calls on a new service is the last 60 samples
  written (all of them while there are fewer), oldest first; and when the collection
  of every call is orderly, every call writes a sample, and the timestamps of the
  samples are the clock readings of the calls.
\<close>

lemma getHistory_chronological:
  assumes "sorted_wrt (<) (map snd calls)"
  shows "getHistory (run_service usage percentage calls (new_SystemMonitorService repo)) =
           drop (length (written_samples usage percentage calls (new_SystemMonitorService repo)) - 60)
             (written_samples usage percentage calls (new_SystemMonitorService repo)) \<and>
         sorted_wrt (<)
           (map timestamp (written_samples usage percentage calls (new_SystemMonitorService repo))) \<and>
         (list_all (\<lambda>call. orderly (fst call)) calls \<longrightarrow>
            map timestamp (written_samples usage percentage calls (new_SystemMonitorService repo)) =
              map snd calls \<and>
            length (written_samples usage percentage calls (new_SystemMonitorService repo)) =
              length calls)"
proof -
  let ?svc = "new_SystemMonitorService repo :: ('a, 'b) SystemMonitorService"
  let ?w = "written_samples usage percentage calls ?svc"
  have "history ?svc = ring_layout []" "historyIndex ?svc = length []"
    by (simp_all add: new_SystemMonitorService_def ring_layout_Nil)
  from run_service_layout [OF this, of usage percentage calls] assms
  have l: "history (run_service usage percentage calls ?svc) = ring_layout ?w"
    and t: "sorted_wrt (<) (map timestamp ?w)"
    and o: "list_all (\<lambda>call. orderly (fst call)) calls \<longrightarrow> map timestamp ?w = map snd calls"
    by simp_all
  have "length ?w = length calls" if "list_all (\<lambda>call. orderly (fst call)) calls"
    using o that by (metis length_map)
  then show ?thesis
    using sorted_ring [OF t] l t o by (simp add: getHistory_def HISTORY_SIZE_def)
qed

text \<open>
  Claim C3 says that the history read is ordered from the oldest sample to the newest
  wherever the write cursor stands, so that after 65 calls the sixth sample comes
  first. \<open>getHistory\<close> orders the slots by timestamp only, and the sort is stable: when
  the clock gives all 65 calls the same reading, the read is the array as it lies,
  the 61st to 65th sample first and the 6th to 60th after them. The read has 60
  entries and the first five samples are gone, as the claim says.
\<close>

theorem history_same_millisecond:
  "map cpu (getHistory (run_service Some Some same_millisecond
      (new_SystemMonitorService new_MetricsRepository))) = map Some ([61..<66] @ [6..<61])"
  unfolding same_millisecond_def by code_simp

section \<open>Fan-out and the keep-alive timer\<close>

lemma write_loop_Cons_throws:
  "throws c \<Longrightarrow> write_loop payload throws (c # cs) m =
     write_loop payload throws cs
       (m\<lparr>writeCalls := writeCalls m @ [(c, payload)], clients := set_delete c (clients m)\<rparr>)"
  by (simp add: Let_def)

lemma write_loop_Cons_ok:
  "\<not> throws c \<Longrightarrow> write_loop payload throws (c # cs) m =
     write_loop payload throws cs (m\<lparr>writeCalls := writeCalls m @ [(c, payload)]\<rparr>)"
  by (simp add: Let_def)

lemma write_loop_clients:
  "clients (write_loop payload throws cs m) =
     filter (\<lambda>c. \<not> (c \<in> set cs \<and> throws c)) (clients m)"
proof (induction cs arbitrary: m)
  case Nil
  then show ?case by simp
next
  case (Cons c cs)
  show ?case
  proof (cases "throws c")
    case True
    have "filter (\<lambda>x. \<not> (x \<in> set cs \<and> throws x)) (removeAll c (clients m)) =
          filter (\<lambda>x. \<not> (x \<in> set (c # cs) \<and> throws x)) (clients m)"
      using True by (induction "clients m") (auto simp: removeAll_filter_not_eq intro: filter_cong)
    then show ?thesis
      by (simp add: write_loop_Cons_throws [where throws = throws and c = c] True Cons.IH set_delete_def del: write_loop.simps)
  next
    case False
    have "filter (\<lambda>x. \<not> (x \<in> set cs \<and> throws x)) (clients m) =
          filter (\<lambda>x. \<not> (x \<in> set (c # cs) \<and> throws x)) (clients m)"
      using False by (auto intro: filter_cong)
    then show ?thesis
      by (simp add: write_loop_Cons_ok [where throws = throws and c = c] False Cons.IH del: write_loop.simps)
  qed
qed

lemma write_loop_writeCalls:
  "writeCalls (write_loop payload throws cs m) = writeCalls m @ map (\<lambda>c. (c, payload)) cs"
proof (induction cs arbitrary: m)
  case Nil
  then show ?case by simp
next
  case (Cons c cs)
  show ?case
  proof (cases "throws c")
    case True
    then show ?thesis
      by (simp add: write_loop_Cons_throws [where throws = throws and c = c] Cons.IH
          del: write_loop.simps)
  next
    case False
    then show ?thesis
      by (simp add: write_loop_Cons_ok [where throws = throws and c = c] Cons.IH
          del: write_loop.simps)
  qed
qed

lemma write_loop_timer:
  "heartbeatInterval (write_loop payload throws cs m) = heartbeatInterval m \<and>
   intervals (write_loop payload throws cs m) = intervals m"
proof (induction cs arbitrary: m)
  case Nil
  then show ?case by simp
next
  case (Cons c cs)
  show ?case
  proof (cases "throws c")
    case True
    then show ?thesis
      by (simp add: write_loop_Cons_throws [where throws = throws and c = c] Cons.IH
          del: write_loop.simps)
  next
    case False
    then show ?thesis
      by (simp add: write_loop_Cons_ok [where throws = throws and c = c] Cons.IH
          del: write_loop.simps)
  qed
qed

text \<open>
  Claim C6. When the snapshot serializes, \<open>broadcast\<close> returns normally whatever
  writes throw. It calls \<open>write\<close> once on every connection that is registered when
  it starts, each time with the one frame made of the serialized snapshot, and the
  registry afterwards holds the registered connections whose write did not throw: the
  others are deleted, and those after them in the iteration are written to all the same.
\<close>

theorem broadcast_fan_out:
  assumes "stringify snapshot = Inr json"
  shows "\<exists>m'. broadcast stringify throws snapshot m = Inr m' \<and>
          writeCalls m' =
            writeCalls m @ map (\<lambda>c. (c, ''data: '' @ json @ [CHR 0x0A, CHR 0x0A])) (clients m) \<and>
          clients m' = filter (\<lambda>c. \<not> throws c) (clients m)"
proof -
  have "filter (\<lambda>c. \<not> (c \<in> set (clients m) \<and> throws c)) (clients m) =
        filter (\<lambda>c. \<not> throws c) (clients m)"
    by (rule filter_cong) auto
  then show ?thesis
    using assms by (simp add: broadcast_def write_loop_clients write_loop_writeCalls)
qed

lemma three_clients:
  "addClient 30 (addClient 20 (addClient 10 (new_SSEManager :: nat SSEManager))) =
     \<lparr>clients = [10, 20, 30], heartbeatInterval = Some 1, intervals = [1], nextInterval = 2,
      closeListeners = [10, 20, 30], writeCalls = []\<rparr>"
  by (simp add: addClient_def new_SSEManager_def set_add_def startHeartbeat_def Let_def)

theorem broadcast_fan_out_witness:
  "\<exists>m'. broadcast plain (dead 20) ''{}''
           (addClient 30 (addClient 20 (addClient 10 new_SSEManager))) = Inr m' \<and>
        writeCalls m' = [(10, ''data: {}'' @ [CHR 0x0A, CHR 0x0A]),
                         (20, ''data: {}'' @ [CHR 0x0A, CHR 0x0A]),
                         (30, ''data: {}'' @ [CHR 0x0A, CHR 0x0A])] \<and>
        clients m' = [10, 30]"
proof -
  have p: "plain ''{}'' = Inr ''{}''"
    by (simp add: plain_def)
  from broadcast_fan_out [of plain "''{}''" "''{}''" "dead 20"
      "addClient 30 (addClient 20 (addClient 10 new_SSEManager))", OF p]
  show ?thesis by (simp add: three_clients dead_def)
qed

text \<open>
  One half of the relation between registry and timer does hold in every state that
  a new manager reaches: while a connection is registered, the keep-alive timer runs.
\<close>

lemma registered_timer_step:
  assumes "clients m \<noteq> [] \<longrightarrow> (\<exists>t. heartbeatInterval m = Some t \<and> t \<in> set (intervals m))"
  shows "clients (manager_step m e) \<noteq> [] \<longrightarrow>
           (\<exists>t. heartbeatInterval (manager_step m e) = Some t \<and>
                t \<in> set (intervals (manager_step m e)))"
proof (cases e)
  case (Registers res)
  show ?thesis
  proof (cases "length (set_add res (clients m)) = 1")
    case True
    then show ?thesis using Registers by (simp add: addClient_def Let_def startHeartbeat_def)
  next
    case False
    then have "clients m \<noteq> []" by (auto simp: set_add_def)
    then show ?thesis using assms Registers False by (simp add: addClient_def Let_def)
  qed
next
  case (Closes res)
  show ?thesis
  proof (cases "res \<in> set (closeListeners m) \<and> set_delete res (clients m) = []")
    case True
    then show ?thesis using Closes by (simp add: on_close_def Let_def stopHeartbeat_def split: option.splits)
  next
    case False
    have "set_delete res (clients m) \<noteq> [] \<Longrightarrow> clients m \<noteq> []"
      by (auto simp: set_delete_def)
    then show ?thesis using assms Closes False by (auto simp: on_close_def Let_def)
  qed
next
  case (Broadcasts payload throws)
  have "clients (write_loop payload throws (clients m) m) \<noteq> [] \<Longrightarrow> clients m \<noteq> []"
    by (auto simp: write_loop_clients)
  then show ?thesis using assms Broadcasts write_loop_timer [of payload throws "clients m" m]
    by auto
next
  case (Ticks throws)
  let ?p = "'':heartbeat'' @ [CHR 0x0A, CHR 0x0A]"
  have "clients (write_loop ?p throws (clients m) m) \<noteq> [] \<Longrightarrow> clients m \<noteq> []"
    by (auto simp: write_loop_clients)
  then show ?thesis using assms Ticks write_loop_timer [of ?p throws "clients m" m]
    by (auto simp: heartbeat_tick_def)
qed

lemma registered_timer_runs:
  "clients (foldl manager_step new_SSEManager events) \<noteq> [] \<longrightarrow>
     (\<exists>t. heartbeatInterval (foldl manager_step new_SSEManager events) = Some t \<and>
          t \<in> set (intervals (foldl manager_step new_SSEManager events)))"
proof (induction events rule: rev_induct)
  case Nil
  then show ?case by (simp add: new_SSEManager_def)
next
  case (snoc e events)
  from registered_timer_step [OF snoc.IH, of e] show ?case by simp
qed

text \<open>
  Claim C8 says that the keep-alive timer runs exactly when the registry is not empty.
  Only the \<open>close\<close> listener stops the timer; the \<open>catch\<close> of the write loop deletes
  the client and leaves the timer alone. So when a broadcast evicts the only
  connection, the registry is empty and the timer still runs; the next registration
  then starts a second timer over it, and the first one is never cleared.
\<close>

theorem eviction_leaves_heartbeat:
  "broadcast plain (dead 10) ''{}'' (addClient 10 new_SSEManager) =
     Inr \<lparr>clients = [], heartbeatInterval = Some 1, intervals = [1], nextInterval = 2,
          closeListeners = [10], writeCalls = [(10, ''data: {}'' @ [CHR 0x0A, CHR 0x0A])]\<rparr> \<and>
   intervals (addClient 20 \<lparr>clients = [], heartbeatInterval = Some 1, intervals = [1],
          nextInterval = 2, closeListeners = [10],
          writeCalls = [(10, ''data: {}'' @ [CHR 0x0A, CHR 0x0A])]\<rparr>) = [1, 2]"
  by (simp add: broadcast_def plain_def dead_def addClient_def new_SSEManager_def set_add_def
      set_delete_def startHeartbeat_def Let_def)

section \<open>One transport at a time\<close>

lemma single_transport_timers:
  "single_transport c \<Longrightarrow>
     pendingTimers c = [] \<or> (\<exists>t d. pendingTimers c = [(t, d)] \<and> reconnectTimeout c = Some t)"
  by (cases "pendingTimers c") (auto simp: single_transport_def)

lemma close_closes:
  assumes "single_transport c"
  shows "openSources (close c) = [] \<and> pendingTimers (close c) = [] \<and>
         eventSource (close c) = None \<and> reconnectTimeout (close c) = None"
proof -
  have s: "openSources c = (case eventSource c of None \<Rightarrow> [] | Some h \<Rightarrow> [h])"
    using assms by (simp add: single_transport_def)
  from single_transport_timers [OF assms] s show ?thesis
    by (auto simp: close_def Let_def split: option.splits)
qed

lemma close_keeps:
  "retryCount (close c) = retryCount c \<and> backoff (close c) = backoff c \<and>
   scheduled (close c) = scheduled c \<and> nextHandle (close c) = nextHandle c \<and>
   onStatus (close c) = onStatus c \<and> statusCalls (close c) = statusCalls c \<and>
   onData (close c) = onData c"
  by (simp add: close_def Let_def split: option.splits)

lemma notify_keeps:
  "retryCount (notify s c) = retryCount c \<and> backoff (notify s c) = backoff c \<and>
   scheduled (notify s c) = scheduled c \<and> nextHandle (notify s c) = nextHandle c \<and>
   onStatus (notify s c) = onStatus c \<and> openSources (notify s c) = openSources c \<and>
   pendingTimers (notify s c) = pendingTimers c \<and> eventSource (notify s c) = eventSource c \<and>
   reconnectTimeout (notify s c) = reconnectTimeout c \<and>
   (onStatus c \<longrightarrow> statusCalls (notify s c) = statusCalls c @ [s])"
  by (simp add: notify_def)

lemma open_source_opens:
  assumes "single_transport c"
  shows "openSources (open_source c) = [nextHandle c] \<and> pendingTimers (open_source c) = [] \<and>
         eventSource (open_source c) = Some (nextHandle c) \<and>
         reconnectTimeout (open_source c) = None \<and>
         retryCount (open_source c) = retryCount c \<and> backoff (open_source c) = backoff c \<and>
         scheduled (open_source c) = scheduled c \<and> onStatus (open_source c) = onStatus c"
  using close_closes [OF assms] close_keeps [of c] notify_keeps [of Reconnecting "close c"]
  by (simp add: open_source_def Let_def)

lemma single_transport_fields:
  "openSources c' = openSources c \<Longrightarrow> pendingTimers c' = pendingTimers c \<Longrightarrow>
   eventSource c' = eventSource c \<Longrightarrow> reconnectTimeout c' = reconnectTimeout c \<Longrightarrow>
   single_transport c' = single_transport c"
  by (simp add: single_transport_def)

lemma open_source_single:
  "single_transport c \<Longrightarrow> single_transport (open_source c)"
  using open_source_opens [of c] by (simp add: single_transport_def)

lemma onerror_effect:
  assumes "single_transport c"
  shows "openSources (onerror c) = [] \<and> eventSource (onerror c) = None \<and>
         retryCount (onerror c) = retryCount c + 1 \<and> onStatus (onerror c) = onStatus c \<and>
         (if MAX_RETRIES \<le> retryCount c + 1
          then pendingTimers (onerror c) = [] \<and> reconnectTimeout (onerror c) = None \<and>
               scheduled (onerror c) = scheduled c \<and> backoff (onerror c) = backoff c \<and>
               (onStatus c \<longrightarrow> statusCalls (onerror c) = statusCalls c @ [Disconnected])
          else pendingTimers (onerror c) = [(nextHandle c, backoff c)] \<and>
               reconnectTimeout (onerror c) = Some (nextHandle c) \<and>
               scheduled (onerror c) = scheduled c @ [backoff c] \<and>
               backoff (onerror c) = min (backoff c * 2) MAX_BACKOFF)"
  using close_closes [OF assms] close_keeps [of c]
    notify_keeps [of Disconnected "close c\<lparr>retryCount := retryCount (close c) + 1\<rparr>"]
    notify_keeps [of Reconnecting "close c\<lparr>retryCount := retryCount (close c) + 1\<rparr>"]
  by (simp add: onerror_def Let_def)

lemma onerror_single:
  "single_transport c \<Longrightarrow> single_transport (onerror c)"
  using onerror_effect [of c] by (simp add: single_transport_def split: if_splits)

lemma onopen_single: "single_transport (onopen c) = single_transport c"
  by (rule single_transport_fields) (simp_all add: onopen_def notify_def)

lemma onmessage_single: "single_transport (onmessage p c) = single_transport c"
  by (rule single_transport_fields) (simp_all add: onmessage_def Let_def split: option.splits)

lemma timer_fired_single:
  assumes "single_transport c" "t \<in> fst ` set (pendingTimers c)"
  shows "single_transport (c\<lparr>pendingTimers := filter (\<lambda>p. fst p \<noteq> t) (pendingTimers c)\<rparr>)"
  using single_transport_timers [OF assms(1)] assms
  by (auto simp: single_transport_def)

lemma step_single:
  assumes "single_transport c" "step c e = Some c'"
  shows "single_transport c'"
proof (cases e)
  case (Connect d s)
  have "single_transport (c\<lparr>onData := d, onStatus := s\<rparr>)"
    using assms(1) by (simp add: single_transport_def)
  then show ?thesis using assms(2) Connect open_source_single by (auto simp: connect_def)
next
  case Reconnect
  have "single_transport (c\<lparr>retryCount := 0, backoff := INITIAL_BACKOFF\<rparr>)"
    using assms(1) by (simp add: single_transport_def)
  then show ?thesis using assms(2) Reconnect open_source_single by (auto simp: reconnect_def)
next
  case (OnOpen h)
  then show ?thesis using assms by (auto simp: onopen_single split: if_splits)
next
  case (OnMessage h p)
  then show ?thesis using assms by (auto simp: onmessage_single split: if_splits)
next
  case (OnError h)
  then show ?thesis using assms by (auto simp: onerror_single split: if_splits)
next
  case (TimerFires t)
  then show ?thesis using assms timer_fired_single [of c t] open_source_single
    by (auto split: if_splits)
qed

lemma new_single: "single_transport new_SSEClient"
  by (simp add: single_transport_def new_SSEClient_def)

lemma run_single:
  "single_transport c \<Longrightarrow> run c es = Some c' \<Longrightarrow> single_transport c'"
proof (induction es arbitrary: c)
  case Nil
  then show ?case by simp
next
  case (Cons e es)
  then obtain c1 where c1: "step c e = Some c1" "run c1 es = Some c'"
    by (auto split: option.splits)
  from step_single [OF Cons.prems(1) c1(1)] Cons.IH c1(2) show ?case by blast
qed

lemma single_transport_at_most_one:
  "single_transport c \<Longrightarrow> length (openSources c) \<le> 1 \<and> length (pendingTimers c) \<le> 1"
  by (auto simp: single_transport_def split: option.splits list.splits)

text \<open>
  Claim C10. In every state that a new client reaches through calls of \<open>connect\<close> and
  \<open>reconnect\<close>, open, message and error events of its event sources and firings of its
  timers, at most one event source is open and at most one reconnect timer is pending.
  Every step that opens a transport (\<open>connect\<close>, \<open>reconnect\<close>, the timer's callback)
  leaves the new event source as the only open one, and no pending timer.
\<close>

theorem one_transport_at_a_time:
  assumes "run new_SSEClient events = Some c"
  shows "length (openSources c) \<le> 1 \<and> length (pendingTimers c) \<le> 1 \<and>
         (\<forall>e c'. step c e = Some c' \<and> ((\<exists>d s. e = Connect d s) \<or> e = Reconnect \<or> (\<exists>t. e = TimerFires t)) \<longrightarrow>
            openSources c' = [nextHandle c] \<and> pendingTimers c' = [])"
proof -
  have s: "single_transport c"
    by (rule run_single [OF new_single assms])
  have o: "openSources c' = [nextHandle c] \<and> pendingTimers c' = []"
    if st: "step c e = Some c'" and ev: "(\<exists>d s. e = Connect d s) \<or> e = Reconnect \<or> (\<exists>t. e = TimerFires t)"
    for e c'
  proof -
    consider d s where "e = Connect d s" | "e = Reconnect" | t where "e = TimerFires t" using ev by blast
    then show ?thesis
    proof cases
      case 1
      have "single_transport (c\<lparr>onData := d, onStatus := s\<rparr>)"
        using s by (simp add: single_transport_def)
      from open_source_opens [OF this] show ?thesis using st 1 by (auto simp: connect_def)
    next
      case 2
      have "single_transport (c\<lparr>retryCount := 0, backoff := INITIAL_BACKOFF\<rparr>)"
        using s by (simp add: single_transport_def)
      from open_source_opens [OF this] show ?thesis using st 2 by (auto simp: reconnect_def)
    next
      case 3
      then have t: "t \<in> fst ` set (pendingTimers c)" using st by (auto split: if_splits)
      from open_source_opens [OF timer_fired_single [OF s t]]
      show ?thesis using st 3 t by (auto split: if_splits)
    qed
  qed
  from single_transport_at_most_one [OF s] o show ?thesis by blast
qed

lemma run_streaming: "run new_SSEClient [Connect True True, OnOpen 1] = Some streaming"
  by (simp add: streaming_def connect_def new_SSEClient_def open_source_def close_def
      notify_def Let_def)

theorem one_transport_at_a_time_witness:
  "run new_SSEClient [Connect True True, OnOpen 1] = Some streaming \<and>
   length (openSources streaming) \<le> 1 \<and> length (pendingTimers streaming) \<le> 1 \<and>
   openSources (reconnect streaming) = [nextHandle streaming]"
proof -
  note t = one_transport_at_a_time [OF run_streaming]
  have "step streaming Reconnect = Some (reconnect streaming)"
    by simp
  with t have "openSources (reconnect streaming) = [nextHandle streaming]"
    by blast
  with t run_streaming show ?thesis by blast
qed

section \<open>Circuit breaker and backoff\<close>

lemma run_append:
  "run c (es @ fs) = (case run c es of None \<Rightarrow> None | Some c' \<Rightarrow> run c' fs)"
  by (induction es arbitrary: c) (auto split: option.splits)

lemma no_step_when_closed:
  "openSources c = [] \<Longrightarrow> pendingTimers c = [] \<Longrightarrow>
     step c (OnOpen h) = None \<and> step c (OnMessage h p) = None \<and> step c (OnError h) = None \<and>
     step c (TimerFires t) = None"
  by simp

lemma failure_event_cases:
  assumes "failure_event e"
  obtains h where "e = OnError h" | t where "e = TimerFires t" | h where "e = OnMessage h None"
proof (cases e)
  case (OnMessage h p)
  then show ?thesis using assms that by (cases p) auto
qed (use assms that in auto)

lemma failure_step:
  assumes s: "single_transport c" and f: "failure_event e" and st: "step c e = Some c'"
  shows "single_transport c' \<and> onStatus c' = onStatus c \<and>
         retryCount c' = retryCount c + (if is_error e then 1 else 0) \<and>
         (is_error e \<and> MAX_RETRIES \<le> retryCount c' \<longrightarrow>
            openSources c' = [] \<and> pendingTimers c' = [] \<and> eventSource c' = None \<and>
            reconnectTimeout c' = None \<and>
            (onStatus c' \<longrightarrow> statusCalls c' \<noteq> [] \<and> last (statusCalls c') = Disconnected))"
proof -
  have s': "single_transport c'" by (rule step_single [OF s st])
  from f show ?thesis
  proof (cases e rule: failure_event_cases)
    case (1 h)
    then have c': "c' = onerror c" using st by (auto split: if_splits)
    show ?thesis using onerror_effect [OF s] s' 1 unfolding c' by (auto split: if_splits)
  next
    case (2 t)
    then have t: "t \<in> fst ` set (pendingTimers c)"
      and c': "c' = open_source (c\<lparr>pendingTimers := filter (\<lambda>p. fst p \<noteq> t) (pendingTimers c)\<rparr>)"
      using st by (auto split: if_splits)
    from open_source_opens [OF timer_fired_single [OF s t]] show ?thesis
      using s' 2 unfolding c' by simp
  next
    case (3 h)
    then have "c' = c" using st by (auto simp: onmessage_def split: if_splits)
    then show ?thesis using s 3 by simp
  qed
qed

lemma run_failures:
  assumes "single_transport c" "run c es = Some c'" "list_all failure_event es"
  shows "single_transport c' \<and> onStatus c' = onStatus c \<and>
         retryCount c' = retryCount c + length (filter is_error es) \<and>
         (filter is_error es \<noteq> [] \<and> MAX_RETRIES \<le> retryCount c' \<longrightarrow>
            openSources c' = [] \<and> pendingTimers c' = [] \<and> eventSource c' = None \<and>
            reconnectTimeout c' = None \<and>
            (onStatus c' \<longrightarrow> statusCalls c' \<noteq> [] \<and> last (statusCalls c') = Disconnected))"
  using assms
proof (induction es arbitrary: c)
  case Nil
  then show ?case by simp
next
  case (Cons e es)
  from Cons.prems(2) obtain c1 where c1: "step c e = Some c1" "run c1 es = Some c'"
    by (auto split: option.splits)
  from Cons.prems(3) have f: "failure_event e" "list_all failure_event es" by simp_all
  note one = failure_step [OF Cons.prems(1) f(1) c1(1)]
  then have s1: "single_transport c1" by simp
  note rest = Cons.IH [OF s1 c1(2) f(2)]
  show ?case
  proof (cases "filter is_error es = []")
    case False
    then show ?thesis using one rest by simp
  next
    case True
    show ?thesis
    proof (cases "is_error e \<and> MAX_RETRIES \<le> retryCount c1")
      case False
      then show ?thesis using one rest True by auto
    next
      case closed: True
      with one have o: "openSources c1 = []" "pendingTimers c1 = []" by simp_all
      have "es = []"
      proof (cases es)
        case (Cons x xs)
        with f(2) have "failure_event x" by simp
        then have "step c1 x = None"
          using no_step_when_closed [OF o] by (cases x rule: failure_event_cases) simp_all
        with c1(2) Cons show ?thesis by simp
      qed simp
      with c1(2) have "c' = c1" by simp
      then show ?thesis using one closed True by simp
    qed
  qed
qed

text \<open>
  A successful open resets the retry counter and the backoff, a frame that parses
  resets the retry counter only: errors with one of these between them are not
  errors in a row.
\<close>

lemma success_resets:
  "retryCount (onopen c) = 0 \<and> backoff (onopen c) = INITIAL_BACKOFF \<and>
   retryCount (onmessage (Some d) c) = 0 \<and> backoff (onmessage (Some d) c) = backoff c"
  by (simp add: onopen_def onmessage_def notify_def Let_def)

lemma failed_attempts_9: "failed_attempts 9 @ [OnError 19] =
  [OnError 1, TimerFires 2, OnError 3, TimerFires 4, OnError 5, TimerFires 6, OnError 7,
   TimerFires 8, OnError 9, TimerFires 10, OnError 11, TimerFires 12, OnError 13, TimerFires 14,
   OnError 15, TimerFires 16, OnError 17, TimerFires 18, OnError 19]"
  by (simp add: failed_attempts_def upt_rec numeral_eq_Suc)

lemma run_tripped: "run (connect True True new_SSEClient) (failed_attempts 9 @ [OnError 19]) = Some tripped"
  by (simp add: failed_attempts_9 connect_def new_SSEClient_def open_source_def close_def
      notify_def onerror_def Let_def MAX_RETRIES_def INITIAL_BACKOFF_def MAX_BACKOFF_def
      tripped_def)

lemma run_connect: "run new_SSEClient [Connect True True] = Some (connect True True new_SSEClient)"
  by simp

lemma failed_attempts_failures:
  "list_all failure_event (failed_attempts k) \<and> length (filter is_error (failed_attempts k)) = k"
  by (induction k) (simp_all add: failed_attempts_def)

lemma reconnect_effect:
  "retryCount (reconnect s) = 0 \<and> backoff (reconnect s) = 1000 \<and>
   reconnectTimeout (reconnect s) = None \<and> eventSource (reconnect s) = Some (nextHandle s) \<and>
   nextHandle s \<in> set (openSources (reconnect s)) \<and>
   (onStatus s \<longrightarrow> last (statusCalls (reconnect s)) = Reconnecting)"
  by (simp add: reconnect_def open_source_def close_def notify_def Let_def INITIAL_BACKOFF_def
      split: option.splits)

text \<open>
  Claim C4. From any state that a new client reaches, ten transport errors in a row,
  with nothing between them but the firing of the reconnect timers and frames that do
  not parse (a successful open or a frame that parses would start the count again),
  leave the client disconnected: no event source, no pending timer, the status
  callback last called with \<open>Disconnected\<close>, and no event of an event source or a
  timer can happen any more, so that nothing reconnects by itself. A call of
  \<open>reconnect\<close>, in any state whatever, sets the retry counter to 0 and the backoff to
  1000 and opens a new event source at once.
\<close>

theorem circuit_breaker:
  assumes "run new_SSEClient before = Some c0"
    and "run c0 errors = Some c"
    and "list_all failure_event errors"
    and "length (filter is_error errors) = 10"
  shows "eventSource c = None \<and> reconnectTimeout c = None \<and> openSources c = [] \<and>
         pendingTimers c = [] \<and>
         (onStatus c \<longrightarrow> statusCalls c \<noteq> [] \<and> last (statusCalls c) = Disconnected) \<and>
         (\<forall>h p t. step c (OnOpen h) = None \<and> step c (OnMessage h p) = None \<and>
            step c (OnError h) = None \<and> step c (TimerFires t) = None) \<and>
         (\<forall>s :: 'a SSEClient.
            step s Reconnect = Some (reconnect s) \<and>
            retryCount (reconnect s) = 0 \<and> backoff (reconnect s) = 1000 \<and>
            reconnectTimeout (reconnect s) = None \<and>
            eventSource (reconnect s) = Some (nextHandle s) \<and>
            nextHandle s \<in> set (openSources (reconnect s)) \<and>
            (onStatus s \<longrightarrow> last (statusCalls (reconnect s)) = Reconnecting))"
proof -
  have s0: "single_transport c0"
    by (rule run_single [OF new_single assms(1)])
  have e: "filter is_error errors \<noteq> []"
    using assms(4) by auto
  have r: "MAX_RETRIES \<le> retryCount c0 + length (filter is_error errors)"
    using assms(4) by (simp add: MAX_RETRIES_def)
  from run_failures [OF s0 assms(2,3)] e r
  have closed: "openSources c = []" "pendingTimers c = []" "eventSource c = None"
    "reconnectTimeout c = None"
    "onStatus c \<longrightarrow> statusCalls c \<noteq> [] \<and> last (statusCalls c) = Disconnected"
    by simp_all
  show ?thesis
    using closed no_step_when_closed [OF closed(1,2)] by (simp add: reconnect_effect)
qed

theorem circuit_breaker_witness:
  "run new_SSEClient [Connect True True] = Some (connect True True new_SSEClient) \<and>
   run (connect True True new_SSEClient) (failed_attempts 9 @ [OnError 19]) = Some tripped \<and>
   pendingTimers tripped = [] \<and> last (statusCalls tripped) = Disconnected \<and>
   step tripped (TimerFires 20) = None \<and>
   retryCount (reconnect tripped) = 0 \<and> backoff (reconnect tripped) = 1000 \<and>
   eventSource (reconnect tripped) = Some 20"
proof -
  have f: "list_all failure_event (failed_attempts 9 @ [OnError 19])"
    "length (filter is_error (failed_attempts 9 @ [OnError 19])) = 10"
    using failed_attempts_failures [of 9] by simp_all
  note cb = circuit_breaker [OF run_connect run_tripped f]
  have t: "onStatus tripped" "nextHandle tripped = 20"
    by (simp_all add: tripped_def)
  from cb have 1: "pendingTimers tripped = []" by blast
  from cb t(1) have 2: "last (statusCalls tripped) = Disconnected" by blast
  from cb have 3: "step tripped (TimerFires 20) = None" by blast
  from cb have "retryCount (reconnect tripped) = 0 \<and> backoff (reconnect tripped) = 1000 \<and>
      eventSource (reconnect tripped) = Some (nextHandle tripped)" by blast
  then show ?thesis using 1 2 3 t(2) run_tripped by simp
qed

lemma double_capped:
  "min (min (INITIAL_BACKOFF * 2 ^ r) MAX_BACKOFF * 2) MAX_BACKOFF =
     min (INITIAL_BACKOFF * 2 ^ Suc r) MAX_BACKOFF"
  by (simp add: min_def MAX_BACKOFF_def INITIAL_BACKOFF_def)

lemma backoff_step:
  assumes s: "single_transport c" and f: "failure_event e" and st: "step c e = Some c'"
    and b: "backoff c = min (INITIAL_BACKOFF * 2 ^ retryCount c) MAX_BACKOFF"
    and d: "scheduled c = pre @ delays (retryCount c)"
    and r: "retryCount c + (if is_error e then 1 else 0) < MAX_RETRIES"
  shows "backoff c' = min (INITIAL_BACKOFF * 2 ^ retryCount c') MAX_BACKOFF \<and>
         scheduled c' = pre @ delays (retryCount c')"
  using f
proof (cases e rule: failure_event_cases)
  case (1 h)
  then have c': "c' = onerror c" using st by (auto split: if_splits)
  have "\<not> MAX_RETRIES \<le> retryCount c + 1" using r 1 by simp
  then show ?thesis using onerror_effect [OF s] b d double_capped [of "retryCount c"]
    unfolding c' by (simp add: delays_def)
next
  case (2 t)
  then have t: "t \<in> fst ` set (pendingTimers c)"
    and c': "c' = open_source (c\<lparr>pendingTimers := filter (\<lambda>p. fst p \<noteq> t) (pendingTimers c)\<rparr>)"
    using st by (auto split: if_splits)
  from open_source_opens [OF timer_fired_single [OF s t]] show ?thesis
    using b d unfolding c' by simp
next
  case (3 h)
  then have "c' = c" using st by (auto simp: onmessage_def split: if_splits)
  then show ?thesis using b d by simp
qed

lemma backoff_run:
  assumes "single_transport c" "run c es = Some c'" "list_all failure_event es"
    "backoff c = min (INITIAL_BACKOFF * 2 ^ retryCount c) MAX_BACKOFF"
    "scheduled c = pre @ delays (retryCount c)"
    "retryCount c + length (filter is_error es) < MAX_RETRIES"
  shows "scheduled c' = pre @ delays (retryCount c + length (filter is_error es))"
  using assms
proof (induction es arbitrary: c)
  case Nil
  then show ?case by simp
next
  case (Cons e es)
  from Cons.prems(2) obtain c1 where c1: "step c e = Some c1" "run c1 es = Some c'"
    by (auto split: option.splits)
  from Cons.prems(3) have f: "failure_event e" "list_all failure_event es" by simp_all
  note one = failure_step [OF Cons.prems(1) f(1) c1(1)]
  have r: "retryCount c + (if is_error e then 1 else 0) < MAX_RETRIES"
    using Cons.prems(6) by (simp split: if_splits)
  note b = backoff_step [OF Cons.prems(1) f(1) c1(1) Cons.prems(4) Cons.prems(5) r]
  have r1: "retryCount c1 + length (filter is_error es) < MAX_RETRIES"
    using Cons.prems(6) one by (simp split: if_splits)
  from Cons.IH [OF _ c1(2) f(2) _ _ r1] one b
  show ?case by (simp split: if_splits)
qed

lemma step_bounded:
  assumes "step c e = Some c'" "backoff c \<le> MAX_BACKOFF" "\<forall>d \<in> set (scheduled c). d \<le> MAX_BACKOFF"
  shows "backoff c' \<le> MAX_BACKOFF \<and> (\<forall>d \<in> set (scheduled c'). d \<le> MAX_BACKOFF)"
proof -
  have o: "backoff (open_source x) = backoff x \<and> scheduled (open_source x) = scheduled x" for x :: "'a SSEClient"
    using close_keeps [of x] notify_keeps [of Reconnecting "close x"]
    by (simp add: open_source_def Let_def)
  have i: "INITIAL_BACKOFF \<le> MAX_BACKOFF" by (simp add: INITIAL_BACKOFF_def MAX_BACKOFF_def)
  show ?thesis
  proof (cases e)
    case (Connect d s)
    then show ?thesis using assms o by (auto simp: connect_def)
  next
    case Reconnect
    then show ?thesis using assms o i by (auto simp: reconnect_def)
  next
    case (OnOpen h)
    then show ?thesis using assms i by (auto simp: onopen_def notify_def split: if_splits)
  next
    case (OnMessage h p)
    then show ?thesis using assms by (auto simp: onmessage_def Let_def split: if_splits option.splits)
  next
    case (OnError h)
    then have c': "c' = onerror c" using assms(1) by (auto split: if_splits)
    show ?thesis using assms(2,3) close_keeps [of c] unfolding c'
      by (auto simp: onerror_def Let_def notify_def)
  next
    case (TimerFires t)
    then show ?thesis using assms o by (auto split: if_splits)
  qed
qed

lemma run_bounded:
  "run c es = Some c' \<Longrightarrow> backoff c \<le> MAX_BACKOFF \<Longrightarrow> \<forall>d \<in> set (scheduled c). d \<le> MAX_BACKOFF \<Longrightarrow>
     backoff c' \<le> MAX_BACKOFF \<and> (\<forall>d \<in> set (scheduled c'). d \<le> MAX_BACKOFF)"
proof (induction es arbitrary: c)
  case Nil
  then show ?case by simp
next
  case (Cons e es)
  from Cons.prems(1) obtain c1 where c1: "step c e = Some c1" "run c1 es = Some c'"
    by (auto split: option.splits)
  from step_bounded [OF c1(1) Cons.prems(2,3)] Cons.IH [OF c1(2)] show ?case by blast
qed

lemma upt_7: "[0..<7] = [0, 1, 2, 3, 4, 5, 6]"
  by (simp add: upt_rec)

lemma upt_9: "[0..<9] = [0, 1, 2, 3, 4, 5, 6, 7, 8]"
  by (simp add: upt_rec)

text \<open>
  Claim C5. After \<open>connect\<close> on a new client, when \<open>k < 10\<close> transport errors have
  come in a row (with the firing of the reconnect timers between them), the delays of
  the timers that were set are \<open>min (1000 * 2 ^ j) 30000\<close> for \<open>j = 0, ..., k - 1\<close>, in
  this order: the delay after the \<open>k\<close>-th error is \<open>min (1000 * 2 ^ (k - 1)) 30000\<close>.
  For seven errors this is 1000, 2000, 4000, 8000, 16000, 30000, 30000. No delay that
  a client ever sets, in any run, is above 30000.
\<close>

theorem backoff_sequence:
  assumes "run (connect dataCallback statusCallback new_SSEClient) errors = Some c"
    and "list_all failure_event errors"
    and "length (filter is_error errors) = k"
    and "k < 10"
  shows "scheduled c = map (\<lambda>j. min (1000 * 2 ^ j) 30000) [0..<k] \<and>
         (0 < k \<longrightarrow> last (scheduled c) = min (1000 * 2 ^ (k - 1)) 30000) \<and>
         (k = 7 \<longrightarrow> scheduled c = [1000, 2000, 4000, 8000, 16000, 30000, 30000]) \<and>
         (\<forall>events c'. run new_SSEClient events = Some (c' :: 'b SSEClient) \<longrightarrow>
            (\<forall>d \<in> set (scheduled c'). d \<le> 30000))"
proof -
  let ?c0 = "connect dataCallback statusCallback new_SSEClient :: 'a SSEClient"
  have s0: "single_transport ?c0"
    using step_single [OF new_single, of "Connect dataCallback statusCallback"] by simp
  have i: "retryCount ?c0 = 0" "backoff ?c0 = 1000" "scheduled ?c0 = []"
    by (simp_all add: connect_def open_source_def close_def notify_def new_SSEClient_def
        INITIAL_BACKOFF_def Let_def)
  have b: "backoff ?c0 = min (INITIAL_BACKOFF * 2 ^ retryCount ?c0) MAX_BACKOFF"
    by (simp add: i INITIAL_BACKOFF_def MAX_BACKOFF_def)
  have d: "scheduled ?c0 = [] @ delays (retryCount ?c0)"
    by (simp add: i delays_def)
  have r: "retryCount ?c0 + length (filter is_error errors) < MAX_RETRIES"
    using assms(3,4) by (simp add: i MAX_RETRIES_def)
  from backoff_run [OF s0 assms(1,2) b d r]
  have sch: "scheduled c = map (\<lambda>j. min (1000 * 2 ^ j) 30000) [0..<k]"
    using assms(3) by (simp add: i delays_def INITIAL_BACKOFF_def MAX_BACKOFF_def)
  have l: "last (scheduled c) = min (1000 * 2 ^ (k - 1)) 30000" if "0 < k"
  proof -
    from that obtain n where n: "k = Suc n" by (cases k) auto
    show ?thesis unfolding sch n by simp
  qed
  have seven: "map (\<lambda>j. min (1000 * 2 ^ j) 30000) [0..<7] =
      [1000, 2000, 4000, 8000, 16000, 30000, 30000 :: nat]"
    unfolding upt_7 by simp
  have bound: "\<forall>d \<in> set (scheduled c'). d \<le> 30000"
    if "run new_SSEClient events = Some c'" for events and c' :: "'b SSEClient"
    using run_bounded [OF that] by (simp add: new_SSEClient_def INITIAL_BACKOFF_def MAX_BACKOFF_def)
  show ?thesis
  proof (intro conjI)
    show "scheduled c = map (\<lambda>j. min (1000 * 2 ^ j) 30000) [0..<k]" by (rule sch)
    show "0 < k \<longrightarrow> last (scheduled c) = min (1000 * 2 ^ (k - 1)) 30000" using l by blast
    show "k = 7 \<longrightarrow> scheduled c = [1000, 2000, 4000, 8000, 16000, 30000, 30000]"
      using sch seven by simp
    show "\<forall>events c'. run new_SSEClient events = Some (c' :: 'b SSEClient) \<longrightarrow>
            (\<forall>d \<in> set (scheduled c'). d \<le> 30000)"
      using bound by blast
  qed
qed

theorem backoff_sequence_witness:
  "\<exists>c. run (connect True True new_SSEClient) (failed_attempts 9) = Some (c :: unit SSEClient) \<and>
        scheduled c = [1000, 2000, 4000, 8000, 16000, 30000, 30000, 30000, 30000]"
proof -
  from run_tripped obtain c where
    c: "run (connect True True new_SSEClient) (failed_attempts 9) = Some (c :: unit SSEClient)"
    by (auto simp: run_append split: option.splits)
  have f: "list_all failure_event (failed_attempts 9 :: unit event list)"
    "length (filter is_error (failed_attempts 9 :: unit event list)) = 9" "(9::nat) < 10"
    using failed_attempts_failures [of 9] by simp_all
  from backoff_sequence [OF c f]
  have "scheduled c = map (\<lambda>j. min (1000 * 2 ^ j) 30000) [0..<9]"
    by blast
  then have "scheduled c = [1000, 2000, 4000, 8000, 16000, 30000, 30000, 30000, 30000]"
    unfolding upt_9 by simp
  with c show ?thesis by blast
qed

end
